theory Spec2Isabelle
  imports Main
begin

section \<open>The Musinsa crawler: data model\<close>

text \<open>
  The development embeds \<^verbatim>\<open>src/database/musinsa_crawler.py\<close>: the per-item extractor
  \<^verbatim>\<open>extract_product_info\<close> and the collection loop of \<^verbatim>\<open>crawl_musinsa\<close>.

  Exceptions are values. Only the difference between \<^verbatim>\<open>NoSuchElementException\<close> and
  every other exception matters to the handlers of the source; the other constructors
  name the exceptions a Selenium session, the progress print of line 181 and
  \<^verbatim>\<open>open\<close> can raise.
\<close>

datatype exn =
    NoSuchElementException
  | StaleElementReferenceException
  | TimeoutException
  | WebDriverException
  | TypeError
  | OSError
  | SetupException

text \<open>The outcome of one DOM lookup: the exception it raises, or the value it reads.\<close>

type_synonym 'a lookup = "exn + 'a"

text \<open>
  A raw item handle (one \<^verbatim>\<open>div.sc-hdBJTi.gAWtWT\<close> element) is a live element of the page:
  every lookup on it queries the DOM at the moment of the call. The handle is given by
  what each lookup that the source makes on it yields:
  \<^item> \<open>loop_link_element\<close>: the lookup of the loop, lines 162-163,
    \<^verbatim>\<open>find_element('a.sc-cOpnSz.keqfmf').get_attribute('href')\<close>, whose value is tested
    at line 166 and added to \<^verbatim>\<open>collected_urls\<close> at line 175;
  \<^item> \<open>link_element\<close>: the same lookup made again by \<^verbatim>\<open>extract_product_info\<close>,
    lines 71-72, whose value becomes \<^verbatim>\<open>product_url\<close>; the two reads are separate calls
    and may differ;
  \<^item> \<open>brand_element\<close>, \<open>product_name_element\<close>: \<^verbatim>\<open>find_element(...).text\<close>;
  \<^item> \<open>price_elements\<close>: \<^verbatim>\<open>find_elements(...)\<close>, each element given by its text;
  \<^item> \<open>img_element\<close>: \<^verbatim>\<open>find_element('img...').get_attribute('src')\<close>.
  \<^verbatim>\<open>get_attribute\<close> returns \<^verbatim>\<open>None\<close> for an absent attribute.

  Strings are byte lists; the only character the code inspects is the ASCII \<^verbatim>\<open>?\<close>,
  which never occurs inside a multi-byte UTF-8 sequence.
\<close>

record item =
  loop_link_element :: "string option lookup"
  link_element :: "string option lookup"
  brand_element :: "string lookup"
  product_name_element :: "string lookup"
  price_elements :: "string list lookup"
  img_element :: "string option lookup"

text \<open>The dictionary \<^verbatim>\<open>product_data\<close>; every key is set on every path that returns.\<close>

record product_data =
  product_url :: "string option"
  brand_name :: "string option"
  product_name :: "string option"
  price :: "string option"
  image_url :: "string option"

section \<open>extract_product_info (lines 65-114)\<close>

text \<open>
  Each of the five blocks is \<^verbatim>\<open>try: ... except NoSuchElementException: field = None\<close>.
  \<open>except_NoSuchElement\<close> is that handler: it turns \<^verbatim>\<open>NoSuchElementException\<close> into
  the value \<^verbatim>\<open>None\<close> and lets every other exception through.
\<close>

definition except_NoSuchElement :: "exn + 'a option \<Rightarrow> exn + 'a option" where
  "except_NoSuchElement r =
     (case r of
        Inl e \<Rightarrow> (if e = NoSuchElementException then Inr None else Inl e)
      | Inr v \<Rightarrow> Inr v)"

text \<open>Lines 94-99: the choice among the price fragments.\<close>

definition select_price :: "string list \<Rightarrow> string option" where
  "select_price price_texts =
     (if length price_texts \<ge> 2 then Some (price_texts ! 1)
      else if length price_texts = 1 then Some (price_texts ! 0)
      else None)"

text \<open>Python's \<^verbatim>\<open>s.split(c)\<close> for a one-character separator; the result is never empty.\<close>

fun split_chr :: "char \<Rightarrow> string \<Rightarrow> string list" where
  "split_chr c [] = [[]]"
| "split_chr c (x # xs) =
     (if x = c then [] # split_chr c xs
      else (case split_chr c xs of
              [] \<Rightarrow> [[x]]
            | w # ws \<Rightarrow> (x # w) # ws))"

text \<open>Python truthiness of a value that is \<^verbatim>\<open>None\<close> or a string.\<close>

definition truthy :: "string option \<Rightarrow> bool" where
  "truthy v = (case v of None \<Rightarrow> False | Some s \<Rightarrow> s \<noteq> [])"

text \<open>Lines 108-109: \<^verbatim>\<open>if image_url and '?' in image_url: image_url = image_url.split('?')[0]\<close>.\<close>

definition strip_query :: "string option \<Rightarrow> string option" where
  "strip_query image_src =
     (case image_src of
        None \<Rightarrow> None
      | Some s \<Rightarrow>
          (if truthy (Some s) \<and> CHR ''?'' \<in> set s
           then Some (hd (split_chr CHR ''?'' s))
           else Some s))"

text \<open>
  The five blocks in the order of the source; an exception that a block does not
  catch leaves the function at that block.
\<close>

definition extract_product_info :: "item \<Rightarrow> exn + product_data" where
  "extract_product_info it =
     (case except_NoSuchElement (link_element it) of
        Inl e \<Rightarrow> Inl e
      | Inr url \<Rightarrow>
     (case except_NoSuchElement (map_sum id Some (brand_element it)) of
        Inl e \<Rightarrow> Inl e
      | Inr b \<Rightarrow>
     (case except_NoSuchElement (map_sum id Some (product_name_element it)) of
        Inl e \<Rightarrow> Inl e
      | Inr n \<Rightarrow>
     (case except_NoSuchElement (map_sum id select_price (price_elements it)) of
        Inl e \<Rightarrow> Inl e
      | Inr p \<Rightarrow>
     (case except_NoSuchElement (map_sum id strip_query (img_element it)) of
        Inl e \<Rightarrow> Inl e
      | Inr i \<Rightarrow>
          Inr \<lparr>product_url = url, brand_name = b, product_name = n,
               price = p, image_url = i\<rparr>)))))"

section \<open>crawl_musinsa (lines 116-241)\<close>

text \<open>
  The local variables of \<^verbatim>\<open>crawl_musinsa\<close>. \<open>scan_count\<close> is not a variable of the
  source: it counts the calls of \<^verbatim>\<open>driver.find_elements\<close> made so far and selects the
  answer of the browser to the next one.
\<close>

record state =
  products :: "product_data list"
  collected_urls :: "string option set"
  collected_count :: nat
  scroll_count :: nat
  no_new_items_count :: nat
  new_items_found :: nat
  scan_count :: nat

text \<open>
  The browser session as the function sees it: whether \<^verbatim>\<open>setup_driver\<close> returns a
  driver, what \<^verbatim>\<open>driver.get\<close> and \<^verbatim>\<open>wait.until\<close> raise, what the k-th call of
  \<^verbatim>\<open>driver.find_elements\<close> returns or raises, what the k-th scroll (the three
  \<^verbatim>\<open>execute_script\<close> calls of lines 209-217) raises, and what \<^verbatim>\<open>open\<close> raises.
\<close>

record browser =
  setup_driver :: "exn option"
  page_load :: "exn option"
  find_elements :: "nat \<Rightarrow> exn + item list"
  execute_script :: "nat \<Rightarrow> exn option"
  open_file :: "exn option"

text \<open>
  Lines 161-181, the body of the per-item \<^verbatim>\<open>try\<close>: the state it leaves and the
  exception it raises, if any. The key that is tested and added to \<^verbatim>\<open>collected_urls\<close>
  is the link the loop read (\<open>loop_link_element\<close>); the record that is tested at line
  173 and appended is the one the extractor built from its own reads. The progress print of line 181 slices
  \<^verbatim>\<open>product_data.get('product_name', 'N/A')\<close>, which is \<^verbatim>\<open>None\<close> when the name was
  not found (the key is present), and so raises \<^verbatim>\<open>TypeError\<close> after the item was stored.
\<close>

definition try_item :: "state \<Rightarrow> item \<Rightarrow> state \<times> exn option" where
  "try_item st it =
     (case loop_link_element it of
        Inl e \<Rightarrow> (st, Some e)
      | Inr url \<Rightarrow>
          if url \<in> collected_urls st then (st, None)
          else
            (case extract_product_info it of
               Inl e \<Rightarrow> (st, Some e)
             | Inr pd \<Rightarrow>
                 if truthy (product_url pd) then
                   (let st' = st\<lparr>products := products st @ [pd],
                                  collected_urls := insert url (collected_urls st),
                                  collected_count := collected_count st + 1,
                                  new_items_found := new_items_found st + 1\<rparr>
                    in if collected_count st' mod 10 = 0 \<and> product_name pd = None
                       then (st', Some TypeError)
                       else (st', None))
                 else (st, None)))"

text \<open>
  Lines 183-187: both handlers (\<^verbatim>\<open>NoSuchElementException\<close> and \<^verbatim>\<open>Exception\<close>)
  \<^verbatim>\<open>continue\<close>, so one item always leaves a state and never an exception.
\<close>

definition item_step :: "state \<Rightarrow> item \<Rightarrow> state" where
  "item_step st it = fst (try_item st it)"

text \<open>Lines 156-187: the \<^verbatim>\<open>for\<close> loop with its \<^verbatim>\<open>break\<close> at the target.\<close>

fun scan_items :: "int \<Rightarrow> state \<Rightarrow> item list \<Rightarrow> state" where
  "scan_items max_items st [] = st"
| "scan_items max_items st (it # its) =
     (if int (collected_count st) \<ge> max_items then st
      else scan_items max_items (item_step st it) its)"

text \<open>
  How the \<^verbatim>\<open>while\<close> loop ends without an exception: by \<^verbatim>\<open>collected_count >= max_items\<close>
  (the guard of line 143 or the \<^verbatim>\<open>break\<close> of line 195), or by the \<^verbatim>\<open>break\<close> of line 204
  after ten scans in a row without a new item. The source prints the two cases and
  returns neither.
\<close>

datatype outcome = reached_target | exhausted

lemma collected_count_try_item:
  "collected_count (fst (try_item st it)) =
     collected_count st + (new_items_found (fst (try_item st it)) - new_items_found st)"
  by (simp add: try_item_def Let_def split: sum.splits)

lemma new_items_found_item_step: "new_items_found st \<le> new_items_found (item_step st it)"
  by (simp add: item_step_def try_item_def Let_def split: sum.splits)

lemma new_items_found_scan_items:
  "new_items_found st \<le> new_items_found (scan_items m st its)"
proof (induction its arbitrary: st)
  case Nil
  show ?case by simp
next
  case (Cons it its)
  have "new_items_found st \<le> new_items_found (item_step st it)"
    by (rule new_items_found_item_step)
  also have "\<dots> \<le> new_items_found (scan_items m (item_step st it) its)"
    by (rule Cons.IH)
  finally show ?case by simp
qed

lemma collected_count_scan_items:
  "collected_count (scan_items m st its) + new_items_found st =
     collected_count st + new_items_found (scan_items m st its)"
proof (induction its arbitrary: st)
  case Nil
  show ?case by simp
next
  case (Cons it its)
  have a: "collected_count (item_step st it) + new_items_found st =
        collected_count st + new_items_found (item_step st it)"
    using collected_count_try_item [of st it] new_items_found_item_step [of st it]
    by (simp add: item_step_def)
  show ?case
    using Cons.IH [of "item_step st it"] a by simp
qed

lemma item_step_frame:
  "no_new_items_count (item_step st it) = no_new_items_count st"
  "scroll_count (item_step st it) = scroll_count st"
  "scan_count (item_step st it) = scan_count st"
  by (simp_all add: item_step_def try_item_def Let_def split: sum.splits)

lemma scan_items_frame:
  "no_new_items_count (scan_items m st its) = no_new_items_count st \<and>
   scroll_count (scan_items m st its) = scroll_count st \<and>
   scan_count (scan_items m st its) = scan_count st"
  by (induction its arbitrary: st) (simp_all add: item_step_frame)

text \<open>
  Lines 143-221: the \<^verbatim>\<open>while\<close> loop. It returns the state at its end together with the
  exception that left it (a failed \<^verbatim>\<open>find_elements\<close> or \<^verbatim>\<open>execute_script\<close>) or the way
  it ended.
\<close>

function run_loop :: "browser \<Rightarrow> int \<Rightarrow> state \<Rightarrow> state \<times> (exn + outcome)" where
  "run_loop env max_items st =
     (if \<not> int (collected_count st) < max_items then (st, Inr reached_target)
      else
        (case find_elements env (scan_count st) of
           Inl e \<Rightarrow> (st\<lparr>scan_count := scan_count st + 1\<rparr>, Inl e)
         | Inr items \<Rightarrow>
             (let st1 = scan_items max_items
                          (st\<lparr>new_items_found := 0, scan_count := scan_count st + 1\<rparr>) items
              in if new_items_found st1 > 0 then
                   (let st2 = st1\<lparr>no_new_items_count := 0\<rparr>
                    in if int (collected_count st2) \<ge> max_items then (st2, Inr reached_target)
                       else run_loop env max_items st2)
                 else
                   (let st2 = st1\<lparr>no_new_items_count := no_new_items_count st1 + 1\<rparr>
                    in if no_new_items_count st2 \<ge> 10 then (st2, Inr exhausted)
                       else
                         (case execute_script env (scroll_count st2) of
                            Some e \<Rightarrow> (st2, Inl e)
                          | None \<Rightarrow>
                              run_loop env max_items
                                (st2\<lparr>scroll_count := scroll_count st2 + 1\<rparr>))))))"
  by pat_completeness auto
termination
proof (relation "measures [\<lambda>(env, m, st). nat (m - int (collected_count st)),
                            \<lambda>(env, m, st). 10 - no_new_items_count st]", goal_cases)
  case 1
  show ?case by simp
next
  case (2 env max_items st items st1 st2)
  have "collected_count st1 = collected_count st + new_items_found st1"
    using collected_count_scan_items
      [of max_items "st\<lparr>new_items_found := 0, scan_count := scan_count st + 1\<rparr>" items]
    by (simp add: 2)
  with 2 show ?case by simp
next
  case (3 env max_items st items st1 st2)
  have "collected_count st1 = collected_count st + new_items_found st1"
    using collected_count_scan_items
      [of max_items "st\<lparr>new_items_found := 0, scan_count := scan_count st + 1\<rparr>" items]
    by (simp add: 3)
  with 3 show ?case by (simp add: scan_items_frame)
qed

declare run_loop.simps [simp del]

text \<open>
  What \<^verbatim>\<open>crawl_musinsa\<close> leaves behind when it returns: the list it returns, the
  content \<^verbatim>\<open>json.dump\<close> wrote (\<open>None\<close> when line 225 was not reached), whether
  \<^verbatim>\<open>driver.quit()\<close> ran, the exception the handler of line 233 caught, how the
  \<^verbatim>\<open>while\<close> loop ended if it did, and the local variables at the return.
\<close>

record run_result =
  returned :: "product_data list"
  output_file :: "product_data list option"
  driver_quit :: bool
  caught :: "exn option"
  ended :: "outcome option"
  locals :: state

definition initial_state :: state where
  "initial_state =
     \<lparr>products = [], collected_urls = {}, collected_count = 0, scroll_count = 0,
      no_new_items_count = 0, new_items_found = 0, scan_count = 0\<rparr>"

text \<open>
  Lines 124-241. \<^verbatim>\<open>setup_driver()\<close> is called before the \<^verbatim>\<open>try\<close>, so its exception
  leaves the function (\<open>Inl\<close>). Every later exception is caught by
  \<^verbatim>\<open>except Exception\<close>, which prints it; \<^verbatim>\<open>finally\<close> quits the driver and line 241
  returns \<^verbatim>\<open>products\<close>.
\<close>

definition crawl_musinsa :: "browser \<Rightarrow> int \<Rightarrow> exn + run_result" where
  "crawl_musinsa env max_items =
     (case setup_driver env of
        Some e \<Rightarrow> Inl e
      | None \<Rightarrow>
          (case page_load env of
             Some e \<Rightarrow>
               Inr \<lparr>returned = [], output_file = None, driver_quit = True,
                    caught = Some e, ended = None, locals = initial_state\<rparr>
           | None \<Rightarrow>
               (case run_loop env max_items initial_state of
                  (st, Inl e) \<Rightarrow>
                    Inr \<lparr>returned = products st, output_file = None, driver_quit = True,
                         caught = Some e, ended = None, locals = st\<rparr>
                | (st, Inr how) \<Rightarrow>
                    (case open_file env of
                       Some e \<Rightarrow>
                         Inr \<lparr>returned = products st, output_file = None,
                              driver_quit = True, caught = Some e, ended = Some how,
                              locals = st\<rparr>
                     | None \<Rightarrow>
                         Inr \<lparr>returned = products st, output_file = Some (products st),
                              driver_quit = True, caught = None, ended = Some how,
                              locals = st\<rparr>))))"

section \<open>Notions used to state the properties\<close>

text \<open>
  One pass of the \<^verbatim>\<open>while\<close> loop (lines 143-221), as a step: the state it leaves and,
  when the loop ends there, how it ends. \<open>run_loop\<close> iterates it.
\<close>

definition cycle :: "browser \<Rightarrow> int \<Rightarrow> state \<Rightarrow> state \<times> (exn + outcome) option" where
  "cycle env max_items st =
     (if \<not> int (collected_count st) < max_items then (st, Some (Inr reached_target))
      else
        (case find_elements env (scan_count st) of
           Inl e \<Rightarrow> (st\<lparr>scan_count := scan_count st + 1\<rparr>, Some (Inl e))
         | Inr items \<Rightarrow>
             (let st1 = scan_items max_items
                          (st\<lparr>new_items_found := 0, scan_count := scan_count st + 1\<rparr>) items
              in if new_items_found st1 > 0 then
                   (let st2 = st1\<lparr>no_new_items_count := 0\<rparr>
                    in if int (collected_count st2) \<ge> max_items
                       then (st2, Some (Inr reached_target))
                       else (st2, None))
                 else
                   (let st2 = st1\<lparr>no_new_items_count := no_new_items_count st1 + 1\<rparr>
                    in if no_new_items_count st2 \<ge> 10 then (st2, Some (Inr exhausted))
                       else
                         (case execute_script env (scroll_count st2) of
                            Some e \<Rightarrow> (st2, Some (Inl e))
                          | None \<Rightarrow> (st2\<lparr>scroll_count := scroll_count st2 + 1\<rparr>, None))))))"

text \<open>
  A lookup that found its element, or that raised \<^verbatim>\<open>NoSuchElementException\<close>: the
  lookups whose exception, if any, the handler of their block catches.
\<close>

definition found_or_missing :: "'a lookup \<Rightarrow> bool" where
  "found_or_missing r = (case r of Inl e \<Rightarrow> e = NoSuchElementException | Inr v \<Rightarrow> True)"

text \<open>
  The record an item handle yields when the loop can store it: the loop reads its link,
  its extraction returns, and the extracted \<^verbatim>\<open>product_url\<close> is truthy (line 173).
\<close>

definition storable :: "item \<Rightarrow> product_data option" where
  "storable it =
     (case loop_link_element it of
        Inl e \<Rightarrow> None
      | Inr url \<Rightarrow>
          (case extract_product_info it of
             Inl e \<Rightarrow> None
           | Inr pd \<Rightarrow> if truthy (product_url pd) then Some pd else None))"

text \<open>
  An item handle is fresh when it is storable and the link the loop reads on it is not
  among the seen keys (line 166).
\<close>

definition fresh :: "string option set \<Rightarrow> item \<Rightarrow> bool" where
  "fresh seen it =
     (case loop_link_element it of
        Inl e \<Rightarrow> False
      | Inr url \<Rightarrow> url \<notin> seen \<and> storable it \<noteq> None)"

text \<open>
  The two reads of the link agree on a handle: the non-empty link that the extractor
  reads, if any, is the link that the loop read just before.
\<close>

definition same_href :: "item \<Rightarrow> bool" where
  "same_href it =
     (case loop_link_element it of
        Inl e \<Rightarrow> True
      | Inr u \<Rightarrow>
          (case link_element it of
             Inl e \<Rightarrow> True
           | Inr v \<Rightarrow> \<not> truthy v \<or> u = v))"

text \<open>The first record of every key, in the order of the list, skipping the keys in \<open>seen\<close>.\<close>

fun first_seen :: "string option set \<Rightarrow> product_data list \<Rightarrow> product_data list" where
  "first_seen seen [] = []"
| "first_seen seen (pd # pds) =
     (if product_url pd \<in> seen then first_seen seen pds
      else pd # first_seen (insert (product_url pd) seen) pds)"

text \<open>
  The item handles that the first \<open>k\<close> calls of \<^verbatim>\<open>find_elements\<close> returned, in order;
  a call that raised returned none.
\<close>

definition scanned :: "browser \<Rightarrow> nat \<Rightarrow> item list" where
  "scanned env k =
     concat (map (\<lambda>j. case find_elements env j of Inl e \<Rightarrow> [] | Inr its \<Rightarrow> its) [0..<k])"

text \<open>The records of the storable handles of a list, in order.\<close>

definition observed :: "item list \<Rightarrow> product_data list" where
  "observed its = List.map_filter storable its"

text \<open>The part of the state that the per-item step reads and writes.\<close>

definition core :: "state \<Rightarrow> product_data list \<times> string option set \<times> nat" where
  "core st = (products st, collected_urls st, collected_count st)"

text \<open>
  \<^verbatim>\<open>collected_urls\<close> is exactly the set of the keys of \<^verbatim>\<open>products\<close>, no two stored
  records share a key, and \<^verbatim>\<open>collected_count\<close> is the number of stored records.
\<close>

definition consistent :: "state \<Rightarrow> bool" where
  "consistent st \<longleftrightarrow>
     collected_urls st = set (map product_url (products st)) \<and>
     distinct (map product_url (products st)) \<and>
     collected_count st = length (products st)"


text \<open>
  The stored records are, in order, the first record of every key among the records of
  the storable handles scanned so far, up to the target.
\<close>

definition in_order :: "browser \<Rightarrow> int \<Rightarrow> state \<Rightarrow> bool" where
  "in_order env m st \<longleftrightarrow>
     consistent st \<and>
     products st = take (nat m) (first_seen {} (observed (scanned env (scan_count st))))"

text \<open>The target is not exceeded and the stall counter is below its threshold.\<close>

definition bounded :: "int \<Rightarrow> state \<Rightarrow> bool" where
  "bounded m st \<longleftrightarrow> int (collected_count st) \<le> m \<and> no_new_items_count st \<le> 9"

text \<open>Concrete item handles and sessions, used to run the definitions.\<close>

definition item_A :: item where
  "item_A =
     \<lparr>loop_link_element = Inr (Some ''https://www.musinsa.com/products/1''),
      link_element = Inr (Some ''https://www.musinsa.com/products/1''),
      brand_element = Inr ''brand'',
      product_name_element = Inr ''knit'',
      price_elements = Inr [''-10%'', ''9,900''],
      img_element = Inr (Some ''https://image.msscdn.net/img.jpg?w=260'')\<rparr>"

definition data_A :: product_data where
  "data_A =
     \<lparr>product_url = Some ''https://www.musinsa.com/products/1'',
      brand_name = Some ''brand'',
      product_name = Some ''knit'',
      price = Some ''9,900'',
      image_url = Some ''https://image.msscdn.net/img.jpg''\<rparr>"

definition item_B :: item where
  "item_B =
     \<lparr>loop_link_element = Inr (Some ''https://www.musinsa.com/products/2''),
      link_element = Inr (Some ''https://www.musinsa.com/products/2''),
      brand_element = Inl NoSuchElementException,
      product_name_element = Inr ''shirt'',
      price_elements = Inr [''9,900''],
      img_element = Inl NoSuchElementException\<rparr>"

definition data_B :: product_data where
  "data_B =
     \<lparr>product_url = Some ''https://www.musinsa.com/products/2'',
      brand_name = None,
      product_name = Some ''shirt'',
      price = Some ''9,900'',
      image_url = None\<rparr>"

text \<open>A handle whose brand lookup finds the element gone from the page.\<close>

definition item_C :: item where
  "item_C =
     \<lparr>loop_link_element = Inr (Some ''https://www.musinsa.com/products/3''),
      link_element = Inr (Some ''https://www.musinsa.com/products/3''),
      brand_element = Inl StaleElementReferenceException,
      product_name_element = Inr ''hoodie'',
      price_elements = Inr [''19,900''],
      img_element = Inr (Some ''https://image.msscdn.net/c.jpg'')\<rparr>"

text \<open>The same product on a later scan, when every lookup succeeds.\<close>

definition item_C_later :: item where
  "item_C_later = item_C\<lparr>brand_element := Inr ''label''\<rparr>"

definition data_C :: product_data where
  "data_C =
     \<lparr>product_url = Some ''https://www.musinsa.com/products/3'',
      brand_name = Some ''label'',
      product_name = Some ''hoodie'',
      price = Some ''19,900'',
      image_url = Some ''https://image.msscdn.net/c.jpg''\<rparr>"

text \<open>A handle without a link element.\<close>

definition item_D :: item where
  "item_D =
     \<lparr>loop_link_element = Inl NoSuchElementException,
      link_element = Inl NoSuchElementException,
      brand_element = Inr ''brand'',
      product_name_element = Inr ''coat'',
      price_elements = Inr [],
      img_element = Inr None\<rparr>"

text \<open>
  A handle of product 1 whose \<^verbatim>\<open>href\<close> attribute is not yet set when the loop reads it
  and is set when the extractor reads it.
\<close>

definition item_E :: item where
  "item_E = item_A\<lparr>loop_link_element := Inr None\<rparr>"


text \<open>A handle whose name lookup times out.\<close>

definition item_G :: item where
  "item_G = item_A\<lparr>product_name_element := Inl TimeoutException\<rparr>"

definition session_A :: browser where
  "session_A =
     \<lparr>setup_driver = None, page_load = None,
      find_elements = (\<lambda>k. Inr [item_A, item_D, item_A, item_B]),
      execute_script = (\<lambda>k. None), open_file = None\<rparr>"

definition session_timeout :: browser where
  "session_timeout =
     \<lparr>setup_driver = None, page_load = Some TimeoutException,
      find_elements = (\<lambda>k. Inr [item_A]),
      execute_script = (\<lambda>k. None), open_file = None\<rparr>"

definition session_E :: browser where
  "session_E =
     \<lparr>setup_driver = None, page_load = None,
      find_elements = (\<lambda>k. Inr [item_E, item_A]),
      execute_script = (\<lambda>k. None), open_file = None\<rparr>"


text \<open>
  A page whose first handle fails on its brand lookup at the first scan and succeeds at
  the later ones.
\<close>

definition session_stale :: browser where
  "session_stale =
     \<lparr>setup_driver = None, page_load = None,
      find_elements = (\<lambda>k. if k = 0 then Inr [item_C, item_B] else Inr [item_C_later, item_B]),
      execute_script = (\<lambda>k. None), open_file = None\<rparr>"

section \<open>The extractor\<close>

lemma extract_product_info_Inr:
  assumes "extract_product_info it = Inr pd"
  shows "except_NoSuchElement (link_element it) = Inr (product_url pd)"
    and "except_NoSuchElement (map_sum id Some (brand_element it)) = Inr (brand_name pd)"
    and "except_NoSuchElement (map_sum id Some (product_name_element it)) = Inr (product_name pd)"
    and "except_NoSuchElement (map_sum id select_price (price_elements it)) = Inr (price pd)"
    and "except_NoSuchElement (map_sum id strip_query (img_element it)) = Inr (image_url pd)"
  using assms by (auto simp: extract_product_info_def split: sum.splits)

lemma extract_item_A: "extract_product_info item_A = Inr data_A"
  by (simp add: extract_product_info_def item_A_def data_A_def except_NoSuchElement_def
      select_price_def strip_query_def truthy_def)

lemma extract_item_B: "extract_product_info item_B = Inr data_B"
  by (simp add: extract_product_info_def item_B_def data_B_def except_NoSuchElement_def
      select_price_def strip_query_def truthy_def)

lemma split_chr_nonempty: "split_chr c s \<noteq> []"
  by (induction s) (auto split: list.splits)

lemma hd_split_chr: "hd (split_chr c s) = takeWhile (\<lambda>x. x \<noteq> c) s"
  by (induction s) (auto split: list.splits simp: split_chr_nonempty)

lemma takeWhile_before: "c \<notin> set p \<Longrightarrow> takeWhile (\<lambda>x. x \<noteq> c) (p @ c # r) = p"
  by (induction p) auto

lemma strip_query_cut:
  "CHR ''?'' \<notin> set before \<Longrightarrow> strip_query (Some (before @ CHR ''?'' # after)) = Some before"
  by (simp add: strip_query_def truthy_def hd_split_chr takeWhile_before)

lemma strip_query_keep: "CHR ''?'' \<notin> set src \<Longrightarrow> strip_query (Some src) = Some src"
  by (simp add: strip_query_def)

lemma strip_query_None: "strip_query None = None"
  by (simp add: strip_query_def)

lemma except_NoSuchElement_found:
  "found_or_missing r \<Longrightarrow>
     except_NoSuchElement (map_sum id f r) = Inr (case r of Inl e \<Rightarrow> None | Inr x \<Rightarrow> f x)"
  by (cases r) (auto simp: found_or_missing_def except_NoSuchElement_def)

lemma except_NoSuchElement_found_link:
  "found_or_missing r \<Longrightarrow>
     except_NoSuchElement r = Inr (case r of Inl e \<Rightarrow> None | Inr x \<Rightarrow> x)"
  by (cases r) (auto simp: found_or_missing_def except_NoSuchElement_def)

lemma except_NoSuchElement_raises:
  "r = Inl e \<Longrightarrow> e \<noteq> NoSuchElementException \<Longrightarrow>
     except_NoSuchElement (map_sum id f r) = Inl e"
  by (simp add: except_NoSuchElement_def)

lemma except_NoSuchElement_raises_link:
  "r = Inl e \<Longrightarrow> e \<noteq> NoSuchElementException \<Longrightarrow> except_NoSuchElement r = Inl e"
  by (simp add: except_NoSuchElement_def)

lemma except_NoSuchElement_Inr:
  "except_NoSuchElement (map_sum id f r) = Inr v \<Longrightarrow>
     found_or_missing r \<and> v = (case r of Inl e \<Rightarrow> None | Inr x \<Rightarrow> f x)"
  by (cases r) (auto simp: found_or_missing_def except_NoSuchElement_def split: if_splits)

lemma except_NoSuchElement_Inr_link:
  "except_NoSuchElement r = Inr v \<Longrightarrow>
     found_or_missing r \<and> v = (case r of Inl e \<Rightarrow> None | Inr x \<Rightarrow> x)"
  by (cases r) (auto simp: found_or_missing_def except_NoSuchElement_def split: if_splits)

lemma except_NoSuchElement_Inl:
  "except_NoSuchElement r = Inl e \<Longrightarrow> e \<noteq> NoSuchElementException"
  by (auto simp: except_NoSuchElement_def split: sum.splits if_splits)

lemma extract_product_info_Inl:
  "extract_product_info it = Inl e \<Longrightarrow> e \<noteq> NoSuchElementException"
  unfolding extract_product_info_def
  by (auto split: sum.splits dest: except_NoSuchElement_Inl)

lemma extract_product_info_found:
  assumes "found_or_missing (link_element it)" and "found_or_missing (brand_element it)"
    and "found_or_missing (product_name_element it)" and "found_or_missing (price_elements it)"
    and "found_or_missing (img_element it)"
  shows "extract_product_info it =
           Inr \<lparr>product_url = (case link_element it of Inl e \<Rightarrow> None | Inr href \<Rightarrow> href),
                brand_name = (case brand_element it of Inl e \<Rightarrow> None | Inr t \<Rightarrow> Some t),
                product_name =
                  (case product_name_element it of Inl e \<Rightarrow> None | Inr t \<Rightarrow> Some t),
                price = (case price_elements it of Inl e \<Rightarrow> None | Inr ts \<Rightarrow> select_price ts),
                image_url =
                  (case img_element it of Inl e \<Rightarrow> None | Inr src \<Rightarrow> strip_query src)\<rparr>"
  by (simp add: extract_product_info_def
      except_NoSuchElement_found_link [OF assms(1)]
      except_NoSuchElement_found [OF assms(2)]
      except_NoSuchElement_found [OF assms(3)]
      except_NoSuchElement_found [OF assms(4)]
      except_NoSuchElement_found [OF assms(5)])

text \<open>
  C6. Whenever the extractor returns a record for an item whose price lookup found the
  fragments \<open>fragments\<close>: with two or more fragments the price is the second one, with
  exactly one fragment it is that fragment, and with none it is \<^verbatim>\<open>None\<close>.
\<close>

theorem price_tie_break:
  assumes "extract_product_info it = Inr pd" and "price_elements it = Inr fragments"
  shows "(\<forall>first second rest. fragments = first # second # rest \<longrightarrow> price pd = Some second) \<and>
         (\<forall>only. fragments = [only] \<longrightarrow> price pd = Some only) \<and>
         (fragments = [] \<longrightarrow> price pd = None)"
  using extract_product_info_Inr(4) [OF assms(1)] assms(2)
  by (auto simp: except_NoSuchElement_def select_price_def)

theorem price_tie_break_witness:
  "extract_product_info item_A = Inr data_A \<and>
   price_elements item_A = Inr [''-10%'', ''9,900''] \<and> price data_A = Some ''9,900'' \<and>
   extract_product_info item_B = Inr data_B \<and>
   price_elements item_B = Inr [''9,900''] \<and> price data_B = Some ''9,900''"
proof -
  have a: "price_elements item_A = Inr [''-10%'', ''9,900'']" by (simp add: item_A_def)
  have b: "price_elements item_B = Inr [''9,900'']" by (simp add: item_B_def)
  from price_tie_break [OF extract_item_A a] have "price data_A = Some ''9,900''" by blast
  moreover from price_tie_break [OF extract_item_B b] have "price data_B = Some ''9,900''" by blast
  ultimately show ?thesis using a b extract_item_A extract_item_B by simp
qed

text \<open>
  C9. Whenever the extractor returns a record: a source attribute that contains
  \<^verbatim>\<open>?\<close> is stored cut before its first \<^verbatim>\<open>?\<close>, a source attribute without \<^verbatim>\<open>?\<close> is
  stored as it is, and a missing image element or a source attribute that is
  \<^verbatim>\<open>None\<close> gives the image URL \<^verbatim>\<open>None\<close>. And the extractor does return a record in
  each of these cases, the missing image element included, as soon as none of the four
  lookups before the image raises anything but \<^verbatim>\<open>NoSuchElementException\<close>.
\<close>

theorem image_url_normalised:
  "(extract_product_info it = Inr pd \<longrightarrow>
      (\<forall>before after. img_element it = Inr (Some (before @ CHR ''?'' # after)) \<and>
          CHR ''?'' \<notin> set before \<longrightarrow> image_url pd = Some before) \<and>
      (\<forall>src. img_element it = Inr (Some src) \<and> CHR ''?'' \<notin> set src \<longrightarrow>
          image_url pd = Some src) \<and>
      (img_element it = Inl NoSuchElementException \<or> img_element it = Inr None \<longrightarrow>
          image_url pd = None)) \<and>
   (found_or_missing (link_element it) \<and> found_or_missing (brand_element it) \<and>
    found_or_missing (product_name_element it) \<and> found_or_missing (price_elements it) \<longrightarrow>
      (\<forall>before after. img_element it = Inr (Some (before @ CHR ''?'' # after)) \<and>
          CHR ''?'' \<notin> set before \<longrightarrow>
          (\<exists>pd. extract_product_info it = Inr pd \<and> image_url pd = Some before)) \<and>
      (\<forall>src. img_element it = Inr (Some src) \<and> CHR ''?'' \<notin> set src \<longrightarrow>
          (\<exists>pd. extract_product_info it = Inr pd \<and> image_url pd = Some src)) \<and>
      (img_element it = Inl NoSuchElementException \<or> img_element it = Inr None \<longrightarrow>
          (\<exists>pd. extract_product_info it = Inr pd \<and> image_url pd = None)))"
proof (intro conjI impI)
  assume x: "extract_product_info it = Inr pd"
  note i = except_NoSuchElement_Inr [OF extract_product_info_Inr(5) [OF x]]
  show "\<forall>before after. img_element it = Inr (Some (before @ CHR ''?'' # after)) \<and>
          CHR ''?'' \<notin> set before \<longrightarrow> image_url pd = Some before"
    using i by (auto simp: strip_query_cut)
  show "\<forall>src. img_element it = Inr (Some src) \<and> CHR ''?'' \<notin> set src \<longrightarrow>
          image_url pd = Some src"
    using i by (auto simp: strip_query_keep)
  assume "img_element it = Inl NoSuchElementException \<or> img_element it = Inr None"
  then show "image_url pd = None"
    using i by (auto simp: strip_query_None)
next
  assume h: "found_or_missing (link_element it) \<and> found_or_missing (brand_element it) \<and>
    found_or_missing (product_name_element it) \<and> found_or_missing (price_elements it)"
  have r: "\<exists>pd. extract_product_info it = Inr pd \<and>
             image_url pd = (case img_element it of Inl e \<Rightarrow> None | Inr src \<Rightarrow> strip_query src)"
    if "found_or_missing (img_element it)"
    using h that by (simp add: extract_product_info_found)
  show "\<forall>before after. img_element it = Inr (Some (before @ CHR ''?'' # after)) \<and>
          CHR ''?'' \<notin> set before \<longrightarrow>
          (\<exists>pd. extract_product_info it = Inr pd \<and> image_url pd = Some before)"
  proof (intro allI impI)
    fix before after
    assume a: "img_element it = Inr (Some (before @ CHR ''?'' # after)) \<and>
          CHR ''?'' \<notin> set before"
    then have "found_or_missing (img_element it)" by (simp add: found_or_missing_def)
    from r [OF this] a
    show "\<exists>pd. extract_product_info it = Inr pd \<and> image_url pd = Some before"
      by (simp add: strip_query_cut)
  qed
  show "\<forall>src. img_element it = Inr (Some src) \<and> CHR ''?'' \<notin> set src \<longrightarrow>
          (\<exists>pd. extract_product_info it = Inr pd \<and> image_url pd = Some src)"
  proof (intro allI impI)
    fix src
    assume a: "img_element it = Inr (Some src) \<and> CHR ''?'' \<notin> set src"
    then have "found_or_missing (img_element it)" by (simp add: found_or_missing_def)
    from r [OF this] a
    show "\<exists>pd. extract_product_info it = Inr pd \<and> image_url pd = Some src"
      by (simp add: strip_query_keep)
  qed
  assume a: "img_element it = Inl NoSuchElementException \<or> img_element it = Inr None"
  then have "found_or_missing (img_element it)" by (auto simp: found_or_missing_def)
  from r [OF this] a
  show "\<exists>pd. extract_product_info it = Inr pd \<and> image_url pd = None"
    by (auto simp: strip_query_None)
qed

theorem image_url_normalised_witness:
  "img_element item_A = Inr (Some (''https://image.msscdn.net/img.jpg'' @ CHR ''?'' # ''w=260'')) \<and>
   CHR ''?'' \<notin> set ''https://image.msscdn.net/img.jpg'' \<and>
   (\<exists>pd. extract_product_info item_A = Inr pd \<and>
      image_url pd = Some ''https://image.msscdn.net/img.jpg'') \<and>
   img_element item_B = Inl NoSuchElementException \<and>
   brand_element item_B = Inl NoSuchElementException \<and>
   (\<exists>pd. extract_product_info item_B = Inr pd \<and> image_url pd = None)"
proof -
  have a: "img_element item_A =
             Inr (Some (''https://image.msscdn.net/img.jpg'' @ CHR ''?'' # ''w=260''))"
    by (simp add: item_A_def)
  have b: "CHR ''?'' \<notin> set ''https://image.msscdn.net/img.jpg''" by simp
  have fa: "found_or_missing (link_element item_A) \<and> found_or_missing (brand_element item_A) \<and>
    found_or_missing (product_name_element item_A) \<and> found_or_missing (price_elements item_A)"
    by (simp add: item_A_def found_or_missing_def)
  have fb: "found_or_missing (link_element item_B) \<and> found_or_missing (brand_element item_B) \<and>
    found_or_missing (product_name_element item_B) \<and> found_or_missing (price_elements item_B)"
    by (simp add: item_B_def found_or_missing_def)
  have c: "img_element item_B = Inl NoSuchElementException"
    and d: "brand_element item_B = Inl NoSuchElementException"
    by (simp_all add: item_B_def)
  from image_url_normalised [of item_A] fa a b
  have 1: "\<exists>pd. extract_product_info item_A = Inr pd \<and>
      image_url pd = Some ''https://image.msscdn.net/img.jpg''" by blast
  from image_url_normalised [of item_B] fb c
  have 2: "\<exists>pd. extract_product_info item_B = Inr pd \<and> image_url pd = None" by blast
  from a b c d 1 2 show ?thesis by blast
qed

section \<open>One item handle in the loop\<close>

lemma storable_Some:
  "storable it = Some pd \<longleftrightarrow>
     (\<exists>url. loop_link_element it = Inr url) \<and> extract_product_info it = Inr pd \<and>
     truthy (product_url pd)"
  by (auto simp: storable_def split: sum.splits)

lemma item_step_not_fresh: "\<not> fresh (collected_urls st) it \<Longrightarrow> item_step st it = st"
  by (auto simp: item_step_def try_item_def fresh_def storable_def Let_def split: sum.splits)

lemma item_step_store:
  assumes "loop_link_element it = Inr url" and "url \<notin> collected_urls st"
    and "extract_product_info it = Inr pd" and "truthy (product_url pd)"
  shows "item_step st it =
           st\<lparr>products := products st @ [pd],
              collected_urls := insert url (collected_urls st),
              collected_count := collected_count st + 1,
              new_items_found := new_items_found st + 1\<rparr>"
  using assms by (simp add: item_step_def try_item_def Let_def)

lemma item_step_cases:
  "item_step st it = st \<or>
   (\<exists>url pd. loop_link_element it = Inr url \<and> url \<notin> collected_urls st \<and>
      extract_product_info it = Inr pd \<and> truthy (product_url pd) \<and>
      item_step st it =
        st\<lparr>products := products st @ [pd],
           collected_urls := insert url (collected_urls st),
           collected_count := collected_count st + 1,
           new_items_found := new_items_found st + 1\<rparr>)"
  by (auto simp: item_step_def try_item_def Let_def split: sum.splits)

lemma same_href_key:
  assumes "same_href it" and "loop_link_element it = Inr url"
    and "extract_product_info it = Inr pd" and "truthy (product_url pd)"
  shows "product_url pd = url"
proof (cases "link_element it")
  case (Inl e)
  with extract_product_info_Inr(1) [OF assms(3)] assms(4) show ?thesis
    by (auto simp: except_NoSuchElement_def truthy_def split: if_splits)
next
  case (Inr v)
  with extract_product_info_Inr(1) [OF assms(3)] have "v = product_url pd"
    by (simp add: except_NoSuchElement_def)
  with assms(1,2,4) Inr show ?thesis by (simp add: same_href_def)
qed

lemma scan_items_at_target:
  "int (collected_count st) \<ge> m \<Longrightarrow> scan_items m st its = st"
  by (cases its) simp_all

lemma scan_items_preserves:
  assumes "Q st" and "\<And>st it. it \<in> set its \<Longrightarrow> Q st \<Longrightarrow> Q (item_step st it)"
  shows "Q (scan_items m st its)"
  using assms
proof (induction its arbitrary: st)
  case Nil
  then show ?case by simp
next
  case (Cons it its)
  show ?case
  proof (cases "int (collected_count st) \<ge> m")
    case True
    with Cons.prems(1) show ?thesis by simp
  next
    case False
    have "Q (item_step st it)" using Cons.prems by simp
    then have "Q (scan_items m (item_step st it) its)"
      by (rule Cons.IH) (simp add: Cons.prems(2))
    with False show ?thesis by simp
  qed
qed

section \<open>The while loop\<close>

lemma run_loop_cycle:
  "run_loop env m st =
     (case cycle env m st of (st', Some r) \<Rightarrow> (st', r) | (st', None) \<Rightarrow> run_loop env m st')"
  by (subst run_loop.simps) (simp add: cycle_def Let_def split: sum.splits option.splits)

lemma cycle_decreases:
  assumes "cycle env m st = (st', None)"
  shows "(st', st) \<in> measures [\<lambda>s. nat (m - int (collected_count s)),
                                \<lambda>s. 10 - no_new_items_count s]"
proof -
  from assms obtain its where its: "find_elements env (scan_count st) = Inr its"
    and lt: "int (collected_count st) < m"
    by (auto simp: cycle_def split: if_splits sum.splits)
  let ?st1 = "scan_items m (st\<lparr>new_items_found := 0, scan_count := scan_count st + 1\<rparr>) its"
  have cnt: "collected_count ?st1 = collected_count st + new_items_found ?st1"
    using collected_count_scan_items
      [of m "st\<lparr>new_items_found := 0, scan_count := scan_count st + 1\<rparr>" its] by simp
  have fr: "no_new_items_count ?st1 = no_new_items_count st"
    by (simp add: scan_items_frame)
  show ?thesis
  proof (cases "new_items_found ?st1 > 0")
    case True
    with assms its lt have "st' = ?st1\<lparr>no_new_items_count := 0\<rparr>"
      and "\<not> int (collected_count ?st1) \<ge> m"
      by (auto simp: cycle_def Let_def split: if_splits)
    with True cnt lt show ?thesis by simp
  next
    case False
    with assms its lt have
      "st' = ?st1\<lparr>no_new_items_count := no_new_items_count ?st1 + 1,
                  scroll_count := scroll_count ?st1 + 1\<rparr>"
      and "\<not> no_new_items_count ?st1 + 1 \<ge> 10"
      by (auto simp: cycle_def Let_def split: if_splits option.splits)
    with False cnt fr show ?thesis by simp
  qed
qed

lemma run_loop_rule:
  assumes "P st"
    and cont: "\<And>s s'. P s \<Longrightarrow> cycle env m s = (s', None) \<Longrightarrow> P s'"
    and stop: "\<And>s s' r. P s \<Longrightarrow> cycle env m s = (s', Some r) \<Longrightarrow> Q s' r"
  shows "Q (fst (run_loop env m st)) (snd (run_loop env m st))"
proof -
  have "wf (measures [\<lambda>s. nat (m - int (collected_count s)),
                      \<lambda>s. 10 - no_new_items_count s])"
    by simp
  from this assms(1) show ?thesis
  proof (induction st rule: wf_induct_rule)
    case (less st)
    obtain s' x where c: "cycle env m st = (s', x)" by fastforce
    show ?case
    proof (cases x)
      case (Some r)
      with c have "run_loop env m st = (s', r)" by (subst run_loop_cycle) simp
      moreover have "Q s' r" using stop [OF less.prems] c Some by simp
      ultimately show ?thesis by simp
    next
      case None
      with c have c': "cycle env m st = (s', None)" by simp
      then have "run_loop env m st = run_loop env m s'" by (subst run_loop_cycle) simp
      moreover have "Q (fst (run_loop env m s')) (snd (run_loop env m s'))"
        by (rule less.IH [OF cycle_decreases [OF c'] cont [OF less.prems c']])
      ultimately show ?thesis by simp
    qed
  qed
qed

lemma cycle_preserves:
  assumes q: "Q s" and cyc: "cycle env m s = (s', x)"
    and step: "\<And>st it k its. find_elements env k = Inr its \<Longrightarrow> it \<in> set its \<Longrightarrow> Q st \<Longrightarrow>
                 Q (item_step st it)"
    and frame: "\<And>st st'. core st = core st' \<Longrightarrow> Q st \<Longrightarrow> Q st'"
  shows "Q s'"
proof (cases "int (collected_count s) < m")
  case False
  with cyc q show ?thesis by (simp add: cycle_def)
next
  case lt: True
  show ?thesis
  proof (cases "find_elements env (scan_count s)")
    case (Inl e)
    with lt cyc have "core s = core s'" by (auto simp: cycle_def core_def)
    then show ?thesis using q by (rule frame)
  next
    case (Inr its)
    let ?s0 = "s\<lparr>new_items_found := 0, scan_count := scan_count s + 1\<rparr>"
    let ?s1 = "scan_items m ?s0 its"
    have q0: "Q ?s0" by (rule frame [OF _ q]) (simp add: core_def)
    have q1: "Q ?s1" by (rule scan_items_preserves [where Q = Q, OF q0]) (rule step [OF Inr])
    have "core ?s1 = core s'"
      using cyc lt Inr
      by (auto simp: cycle_def Let_def core_def split: if_splits option.splits)
    then show ?thesis using q1 by (rule frame)
  qed
qed

lemma run_loop_preserves:
  assumes "Q st"
    and step: "\<And>st it k its. find_elements env k = Inr its \<Longrightarrow> it \<in> set its \<Longrightarrow> Q st \<Longrightarrow>
                 Q (item_step st it)"
    and frame: "\<And>st st'. core st = core st' \<Longrightarrow> Q st \<Longrightarrow> Q st'"
  shows "Q (fst (run_loop env m st))"
proof (rule run_loop_rule [where P = Q and Q = "\<lambda>s r. Q s", OF assms(1)])
  fix s s'
  assume "Q s" and "cycle env m s = (s', None)"
  then show "Q s'" by (rule cycle_preserves) (erule (2) step, erule (1) frame)
next
  fix s s' r
  assume "Q s" and "cycle env m s = (s', Some r)"
  then show "Q s'" by (rule cycle_preserves) (erule (2) step, erule (1) frame)
qed

section \<open>The whole run\<close>

lemma crawl_musinsa_Inr:
  assumes "crawl_musinsa env m = Inr r"
  shows "setup_driver env = None"
    and "returned r = products (locals r)"
    and "driver_quit r"
    and "page_load env \<noteq> None \<longrightarrow> locals r = initial_state"
    and "page_load env = None \<longrightarrow> locals r = fst (run_loop env m initial_state)"
  using assms
  by (auto simp: crawl_musinsa_def initial_state_def split: option.splits prod.splits sum.splits)

lemma crawl_musinsa_returns:
  "setup_driver env = None \<Longrightarrow> \<exists>r. crawl_musinsa env m = Inr r"
  by (auto simp: crawl_musinsa_def split: option.splits prod.splits sum.splits)

lemma crawl_musinsa_locals:
  assumes "crawl_musinsa env m = Inr r" and "Q initial_state"
    and step: "\<And>st it k its. find_elements env k = Inr its \<Longrightarrow> it \<in> set its \<Longrightarrow> Q st \<Longrightarrow>
                 Q (item_step st it)"
    and frame: "\<And>st st'. core st = core st' \<Longrightarrow> Q st \<Longrightarrow> Q st'"
  shows "Q (locals r)"
proof (cases "page_load env")
  case None
  then have "locals r = fst (run_loop env m initial_state)"
    using crawl_musinsa_Inr(5) [OF assms(1)] by simp
  moreover have "Q (fst (run_loop env m initial_state))"
    by (rule run_loop_preserves [where Q = Q, OF assms(2)]) (erule (2) step, erule (1) frame)
  ultimately show ?thesis by simp
next
  case (Some e)
  then show ?thesis using crawl_musinsa_Inr(4) [OF assms(1)] assms(2) by simp
qed

lemma crawl_musinsa_page_fault:
  assumes "crawl_musinsa env m = Inr r" and "page_load env = Some e"
  shows "r = \<lparr>returned = [], output_file = None, driver_quit = True,
              caught = Some e, ended = None, locals = initial_state\<rparr>"
  using assms by (auto simp: crawl_musinsa_def split: option.splits)

lemma crawl_musinsa_loop_fault:
  assumes "crawl_musinsa env m = Inr r" and "page_load env = None"
    and "run_loop env m initial_state = (st, Inl e)"
  shows "r = \<lparr>returned = products st, output_file = None, driver_quit = True,
              caught = Some e, ended = None, locals = st\<rparr>"
  using assms by (auto simp: crawl_musinsa_def split: option.splits)

lemma crawl_musinsa_loop_ended:
  assumes "crawl_musinsa env m = Inr r" and "page_load env = None"
    and "run_loop env m initial_state = (st, Inr how)"
  shows "r = \<lparr>returned = products st,
              output_file = (if open_file env = None then Some (products st) else None),
              driver_quit = True, caught = open_file env, ended = Some how, locals = st\<rparr>"
  using assms by (auto simp: crawl_musinsa_def split: option.splits)

section \<open>Uniqueness and the seen keys\<close>

lemma consistent_item_step:
  assumes "same_href it" and "consistent st"
  shows "consistent (item_step st it)"
proof -
  from item_step_cases [of st it] show ?thesis
  proof
    assume "item_step st it = st"
    with assms(2) show ?thesis by simp
  next
    assume "\<exists>url pd. loop_link_element it = Inr url \<and> url \<notin> collected_urls st \<and>
      extract_product_info it = Inr pd \<and> truthy (product_url pd) \<and>
      item_step st it =
        st\<lparr>products := products st @ [pd],
           collected_urls := insert url (collected_urls st),
           collected_count := collected_count st + 1,
           new_items_found := new_items_found st + 1\<rparr>"
    then obtain url pd where l: "loop_link_element it = Inr url"
      and n: "url \<notin> collected_urls st"
      and x: "extract_product_info it = Inr pd" and t: "truthy (product_url pd)"
      and s: "item_step st it =
        st\<lparr>products := products st @ [pd],
           collected_urls := insert url (collected_urls st),
           collected_count := collected_count st + 1,
           new_items_found := new_items_found st + 1\<rparr>"
      by blast
    have "product_url pd = url" by (rule same_href_key [OF assms(1) l x t])
    with assms(2) n show ?thesis by (simp add: s consistent_def)
  qed
qed


lemma consistent_initial: "consistent initial_state"
  by (simp add: consistent_def initial_state_def)




lemma scan_session_E:
  "scan_items 2 (initial_state\<lparr>new_items_found := 0, scan_count := 1\<rparr>) [item_E, item_A] =
     initial_state\<lparr>products := [data_A, data_A],
        collected_urls := {Some ''https://www.musinsa.com/products/1'', None},
        collected_count := 2, new_items_found := 2, scan_count := 1\<rparr>"
  by code_simp

lemma crawl_session_E:
  "crawl_musinsa session_E 2 =
     Inr \<lparr>returned = [data_A, data_A], output_file = Some [data_A, data_A],
          driver_quit = True, caught = None, ended = Some reached_target,
          locals = initial_state\<lparr>products := [data_A, data_A],
            collected_urls := {Some ''https://www.musinsa.com/products/1'', None},
            collected_count := 2, new_items_found := 2, scan_count := 1\<rparr>\<rparr>"
  by code_simp





section \<open>Items without a link\<close>






section \<open>Lookups that raise\<close>

text \<open>
  C8 as stated fails: a lookup failure other than \<^verbatim>\<open>NoSuchElementException\<close> is not
  caught by the block of its field. On \<open>item_C\<close> the brand lookup raises
  \<^verbatim>\<open>StaleElementReferenceException\<close>; the exception leaves \<^verbatim>\<open>extract_product_info\<close>,
  and the name, price and image of the item are never read.
\<close>

theorem stale_lookup_counterexample:
  "extract_product_info item_C = Inl StaleElementReferenceException"
  by (simp add: extract_product_info_def item_C_def except_NoSuchElement_def)

text \<open>
  C8, amended. The extractor returns a record exactly when none of its five lookups
  raises anything but \<^verbatim>\<open>NoSuchElementException\<close>, and then every field is resolved
  from its own lookup alone: a lookup that raised \<^verbatim>\<open>NoSuchElementException\<close> gives
  \<^verbatim>\<open>None\<close> for that field and leaves the other fields as their own lookups give them.
  Any other exception is not caught in the extractor: the exception of the first lookup
  (in the order link, brand, name, price, image) that raises one leaves the extractor,
  and the later fields are not read. It reaches the \<^verbatim>\<open>try\<close> of the loop around that
  item, which skips the item, leaves the state unchanged and goes on with the remaining
  handles of the scan.
\<close>

theorem extractor_field_independence:
  "(extract_product_info it = Inr pd \<longrightarrow>
      found_or_missing (link_element it) \<and> found_or_missing (brand_element it) \<and>
      found_or_missing (product_name_element it) \<and> found_or_missing (price_elements it) \<and>
      found_or_missing (img_element it) \<and>
      product_url pd = (case link_element it of Inl e \<Rightarrow> None | Inr href \<Rightarrow> href) \<and>
      brand_name pd = (case brand_element it of Inl e \<Rightarrow> None | Inr t \<Rightarrow> Some t) \<and>
      product_name pd = (case product_name_element it of Inl e \<Rightarrow> None | Inr t \<Rightarrow> Some t) \<and>
      price pd = (case price_elements it of Inl e \<Rightarrow> None | Inr ts \<Rightarrow> select_price ts) \<and>
      image_url pd = (case img_element it of Inl e \<Rightarrow> None | Inr src \<Rightarrow> strip_query src)) \<and>
   (found_or_missing (link_element it) \<and> found_or_missing (brand_element it) \<and>
    found_or_missing (product_name_element it) \<and> found_or_missing (price_elements it) \<and>
    found_or_missing (img_element it) \<longrightarrow>
      (\<exists>pd. extract_product_info it = Inr pd)) \<and>
   (e \<noteq> NoSuchElementException \<longrightarrow>
      (link_element it = Inl e \<longrightarrow> extract_product_info it = Inl e) \<and>
      (found_or_missing (link_element it) \<and> brand_element it = Inl e \<longrightarrow>
         extract_product_info it = Inl e) \<and>
      (found_or_missing (link_element it) \<and> found_or_missing (brand_element it) \<and>
       product_name_element it = Inl e \<longrightarrow> extract_product_info it = Inl e) \<and>
      (found_or_missing (link_element it) \<and> found_or_missing (brand_element it) \<and>
       found_or_missing (product_name_element it) \<and> price_elements it = Inl e \<longrightarrow>
         extract_product_info it = Inl e) \<and>
      (found_or_missing (link_element it) \<and> found_or_missing (brand_element it) \<and>
       found_or_missing (product_name_element it) \<and> found_or_missing (price_elements it) \<and>
       img_element it = Inl e \<longrightarrow> extract_product_info it = Inl e)) \<and>
   (extract_product_info it = Inl e \<longrightarrow>
      e \<noteq> NoSuchElementException \<and>
      (\<forall>url. loop_link_element it = Inr url \<and> url \<notin> collected_urls st \<longrightarrow>
         try_item st it = (st, Some e)) \<and>
      item_step st it = st \<and>
      scan_items m st (it # its) = scan_items m st its)"
proof (intro conjI impI)
  assume x: "extract_product_info it = Inr pd"
  note l = except_NoSuchElement_Inr_link [OF extract_product_info_Inr(1) [OF x]]
  note b = except_NoSuchElement_Inr [OF extract_product_info_Inr(2) [OF x]]
  note n = except_NoSuchElement_Inr [OF extract_product_info_Inr(3) [OF x]]
  note p = except_NoSuchElement_Inr [OF extract_product_info_Inr(4) [OF x]]
  note i = except_NoSuchElement_Inr [OF extract_product_info_Inr(5) [OF x]]
  show "found_or_missing (link_element it)" using l by simp
  show "found_or_missing (brand_element it)" using b by simp
  show "found_or_missing (product_name_element it)" using n by simp
  show "found_or_missing (price_elements it)" using p by simp
  show "found_or_missing (img_element it)" using i by simp
  show "product_url pd = (case link_element it of Inl e \<Rightarrow> None | Inr href \<Rightarrow> href)"
    using l by simp
  show "brand_name pd = (case brand_element it of Inl e \<Rightarrow> None | Inr t \<Rightarrow> Some t)"
    using b by simp
  show "product_name pd = (case product_name_element it of Inl e \<Rightarrow> None | Inr t \<Rightarrow> Some t)"
    using n by simp
  show "price pd = (case price_elements it of Inl e \<Rightarrow> None | Inr ts \<Rightarrow> select_price ts)"
    using p by simp
  show "image_url pd = (case img_element it of Inl e \<Rightarrow> None | Inr src \<Rightarrow> strip_query src)"
    using i by simp
next
  assume "found_or_missing (link_element it) \<and> found_or_missing (brand_element it) \<and>
    found_or_missing (product_name_element it) \<and> found_or_missing (price_elements it) \<and>
    found_or_missing (img_element it)"
  then show "\<exists>pd. extract_product_info it = Inr pd"
    by (simp add: extract_product_info_found)
next
  assume e: "e \<noteq> NoSuchElementException" and l: "link_element it = Inl e"
  show "extract_product_info it = Inl e"
    by (simp add: extract_product_info_def except_NoSuchElement_raises_link [OF l e])
next
  assume e: "e \<noteq> NoSuchElementException"
    and h: "found_or_missing (link_element it) \<and> brand_element it = Inl e"
  from h have l: "found_or_missing (link_element it)" and b: "brand_element it = Inl e"
    by simp_all
  show "extract_product_info it = Inl e"
    by (simp add: extract_product_info_def except_NoSuchElement_found_link [OF l]
        except_NoSuchElement_raises [OF b e])
next
  assume e: "e \<noteq> NoSuchElementException"
    and h: "found_or_missing (link_element it) \<and> found_or_missing (brand_element it) \<and>
       product_name_element it = Inl e"
  from h have l: "found_or_missing (link_element it)"
    and b: "found_or_missing (brand_element it)" and n: "product_name_element it = Inl e"
    by simp_all
  show "extract_product_info it = Inl e"
    by (simp add: extract_product_info_def except_NoSuchElement_found_link [OF l]
        except_NoSuchElement_found [OF b] except_NoSuchElement_raises [OF n e])
next
  assume e: "e \<noteq> NoSuchElementException"
    and h: "found_or_missing (link_element it) \<and> found_or_missing (brand_element it) \<and>
       found_or_missing (product_name_element it) \<and> price_elements it = Inl e"
  from h have l: "found_or_missing (link_element it)"
    and b: "found_or_missing (brand_element it)"
    and n: "found_or_missing (product_name_element it)" and p: "price_elements it = Inl e"
    by simp_all
  show "extract_product_info it = Inl e"
    by (simp add: extract_product_info_def except_NoSuchElement_found_link [OF l]
        except_NoSuchElement_found [OF b] except_NoSuchElement_found [OF n]
        except_NoSuchElement_raises [OF p e])
next
  assume e: "e \<noteq> NoSuchElementException"
    and h: "found_or_missing (link_element it) \<and> found_or_missing (brand_element it) \<and>
       found_or_missing (product_name_element it) \<and> found_or_missing (price_elements it) \<and>
       img_element it = Inl e"
  from h have l: "found_or_missing (link_element it)"
    and b: "found_or_missing (brand_element it)"
    and n: "found_or_missing (product_name_element it)"
    and p: "found_or_missing (price_elements it)" and i: "img_element it = Inl e"
    by simp_all
  show "extract_product_info it = Inl e"
    by (simp add: extract_product_info_def except_NoSuchElement_found_link [OF l]
        except_NoSuchElement_found [OF b] except_NoSuchElement_found [OF n]
        except_NoSuchElement_found [OF p] except_NoSuchElement_raises [OF i e])
next
  assume e: "extract_product_info it = Inl e"
  show "e \<noteq> NoSuchElementException" by (rule extract_product_info_Inl [OF e])
  show "\<forall>url. loop_link_element it = Inr url \<and> url \<notin> collected_urls st \<longrightarrow>
         try_item st it = (st, Some e)"
    using e by (simp add: try_item_def)
  show 2: "item_step st it = st"
    using item_step_cases [of st it] e by auto
  show "scan_items m st (it # its) = scan_items m st its"
    by (simp add: 2 scan_items_at_target)
qed

theorem extractor_field_independence_witness:
  "(\<exists>pd. extract_product_info item_B = Inr pd \<and> brand_name pd = None \<and>
      image_url pd = None \<and> product_name pd = Some ''shirt'' \<and> price pd = Some ''9,900'') \<and>
   brand_element item_C = Inl StaleElementReferenceException \<and>
   extract_product_info item_C = Inl StaleElementReferenceException \<and>
   try_item initial_state item_C = (initial_state, Some StaleElementReferenceException) \<and>
   item_step initial_state item_C = initial_state \<and>
   scan_items 3 initial_state [item_C, item_A] = scan_items 3 initial_state [item_A] \<and>
   product_name_element item_G = Inl TimeoutException \<and>
   extract_product_info item_G = Inl TimeoutException"
proof -
  have fb: "found_or_missing (link_element item_B) \<and> found_or_missing (brand_element item_B) \<and>
    found_or_missing (product_name_element item_B) \<and> found_or_missing (price_elements item_B) \<and>
    found_or_missing (img_element item_B)"
    by (simp add: item_B_def found_or_missing_def)
  from extractor_field_independence [where it = item_B] fb
  obtain pd where pd: "extract_product_info item_B = Inr pd" by blast
  from extractor_field_independence [where it = item_B and pd = pd] pd
  have 1: "brand_name pd = None \<and> image_url pd = None \<and> product_name pd = Some ''shirt'' \<and>
           price pd = Some ''9,900''"
    by (simp add: item_B_def select_price_def)
  have c: "brand_element item_C = Inl StaleElementReferenceException"
    and cl: "found_or_missing (link_element item_C)"
    and cu: "loop_link_element item_C = Inr (Some ''https://www.musinsa.com/products/3'')"
    by (simp_all add: item_C_def found_or_missing_def)
  from extractor_field_independence
    [where it = item_C and e = StaleElementReferenceException] c cl
  have 2: "extract_product_info item_C = Inl StaleElementReferenceException" by simp
  from extractor_field_independence
    [where it = item_C and e = StaleElementReferenceException and st = initial_state
       and m = 3 and its = "[item_A]"] 2 cu
  have 3: "try_item initial_state item_C = (initial_state, Some StaleElementReferenceException) \<and>
   item_step initial_state item_C = initial_state \<and>
   scan_items 3 initial_state [item_C, item_A] = scan_items 3 initial_state [item_A]"
    by (simp add: initial_state_def)
  have g: "product_name_element item_G = Inl TimeoutException"
    and gl: "found_or_missing (link_element item_G)"
    and gb: "found_or_missing (brand_element item_G)"
    by (simp_all add: item_G_def item_A_def found_or_missing_def)
  from extractor_field_independence [where it = item_G and e = TimeoutException] g gl gb
  have 4: "extract_product_info item_G = Inl TimeoutException" by simp
  from pd 1 c 2 3 g 4 show ?thesis by blast
qed

section \<open>The target\<close>

lemma counted_item_step:
  "collected_count st = length (products st) \<Longrightarrow>
     collected_count (item_step st it) = length (products (item_step st it))"
  using item_step_cases [of st it] by auto

lemma collected_count_item_step_le:
  "collected_count (item_step st it) \<le> collected_count st + 1"
  using item_step_cases [of st it] by auto

lemma collected_count_scan_items_le:
  "int (collected_count st) \<le> m \<Longrightarrow> int (collected_count (scan_items m st its)) \<le> m"
proof (induction its arbitrary: st)
  case Nil
  then show ?case by simp
next
  case (Cons it its)
  show ?case
  proof (cases "int (collected_count st) \<ge> m")
    case True
    with Cons.prems show ?thesis by simp
  next
    case False
    then have "int (collected_count (item_step st it)) \<le> m"
      using collected_count_item_step_le [of st it] by simp
    from Cons.IH [OF this] False show ?thesis by simp
  qed
qed

lemma cycle_scan_facts:
  "collected_count (scan_items m (st\<lparr>new_items_found := 0, scan_count := k\<rparr>) its) =
     collected_count st +
     new_items_found (scan_items m (st\<lparr>new_items_found := 0, scan_count := k\<rparr>) its)"
  "no_new_items_count (scan_items m (st\<lparr>new_items_found := 0, scan_count := k\<rparr>) its) =
     no_new_items_count st"
  "int (collected_count st) \<le> m \<Longrightarrow>
     int (collected_count (scan_items m (st\<lparr>new_items_found := 0, scan_count := k\<rparr>) its)) \<le> m"
  "int (collected_count st) \<le> m \<Longrightarrow>
     int (collected_count st) +
     int (new_items_found (scan_items m (st\<lparr>new_items_found := 0, scan_count := k\<rparr>) its)) \<le> m"
  using collected_count_scan_items [of m "st\<lparr>new_items_found := 0, scan_count := k\<rparr>" its]
    collected_count_scan_items_le [of "st\<lparr>new_items_found := 0, scan_count := k\<rparr>" m its]
  by (simp_all add: scan_items_frame)

lemma bounded_cont: "bounded m s \<Longrightarrow> cycle env m s = (s', None) \<Longrightarrow> bounded m s'"
  unfolding cycle_def bounded_def Let_def
  by (auto split: if_splits sum.splits option.splits simp: cycle_scan_facts)

lemma bounded_stop:
  assumes "bounded m s" and "cycle env m s = (s', Some r)"
  shows "int (collected_count s') \<le> m \<and>
         (r = Inr reached_target \<longrightarrow> int (collected_count s') = m) \<and>
         (r = Inr exhausted \<longrightarrow> int (collected_count s') < m \<and> no_new_items_count s' = 10) \<and>
         (\<forall>e. r = Inl e \<longrightarrow> int (collected_count s') < m)"
proof -
  have le: "\<And>k its. int (collected_count s) +
     int (new_items_found (scan_items m (s\<lparr>new_items_found := 0, scan_count := k\<rparr>) its)) \<le> m"
    using assms(1) by (simp add: bounded_def cycle_scan_facts(4))
  have eq: "\<And>k its. m \<le> int (collected_count s) +
     int (new_items_found (scan_items m (s\<lparr>new_items_found := 0, scan_count := k\<rparr>) its)) \<Longrightarrow>
     int (collected_count s) +
     int (new_items_found (scan_items m (s\<lparr>new_items_found := 0, scan_count := k\<rparr>) its)) = m"
    using le by (simp add: order_antisym)
  show ?thesis
    using assms unfolding cycle_def bounded_def Let_def
    by (auto split: if_splits sum.splits option.splits simp: cycle_scan_facts(1,2) le eq)
qed

lemma run_loop_ends:
  assumes "bounded m st" and "run_loop env m st = (s', r)"
  shows "int (collected_count s') \<le> m \<and>
         (r = Inr reached_target \<longrightarrow> int (collected_count s') = m) \<and>
         (r = Inr exhausted \<longrightarrow> int (collected_count s') < m \<and> no_new_items_count s' = 10) \<and>
         (\<forall>e. r = Inl e \<longrightarrow> int (collected_count s') < m)"
  using run_loop_rule [where P = "bounded m" and env = env and m = m and st = st and
      Q = "\<lambda>s' r. int (collected_count s') \<le> m \<and>
         (r = Inr reached_target \<longrightarrow> int (collected_count s') = m) \<and>
         (r = Inr exhausted \<longrightarrow> int (collected_count s') < m \<and> no_new_items_count s' = 10) \<and>
         (\<forall>e. r = Inl e \<longrightarrow> int (collected_count s') < m)",
      OF assms(1) bounded_cont bounded_stop] assms(2)
  by simp

lemma bounded_initial: "0 \<le> m \<Longrightarrow> bounded m initial_state"
  by (simp add: bounded_def initial_state_def)

lemma length_returned:
  assumes "crawl_musinsa env m = Inr r"
  shows "length (returned r) = collected_count (locals r)"
proof -
  have "collected_count (locals r) = length (products (locals r))"
    by (rule crawl_musinsa_locals
          [where Q = "\<lambda>st. collected_count st = length (products st)", OF assms])
       (auto simp: initial_state_def core_def intro: counted_item_step)
  then show ?thesis
    using crawl_musinsa_Inr(2) [OF assms] by simp
qed

text \<open>
  C3 as stated fails. \<^verbatim>\<open>max_items\<close> is any Python integer: with the target \<open>-1\<close> the
  loop is never entered and the empty list that is returned is longer than the target.
  With the target \<open>0\<close> and a page that fails to load, the returned list has exactly
  the target length although the loop never ended with an outcome: the exception was
  caught at line 233.
\<close>

theorem target_bound_counterexample:
  "crawl_musinsa session_A (- 1) =
     Inr \<lparr>returned = [], output_file = Some [], driver_quit = True, caught = None,
          ended = Some reached_target, locals = initial_state\<rparr> \<and>
   \<not> int (length (returned (projr (crawl_musinsa session_A (- 1))))) \<le> - 1 \<and>
   crawl_musinsa session_timeout 0 =
     Inr \<lparr>returned = [], output_file = None, driver_quit = True,
          caught = Some TimeoutException, ended = None, locals = initial_state\<rparr>"
proof -
  have "run_loop session_A (- 1) initial_state = (initial_state, Inr reached_target)"
    by (subst run_loop.simps) (simp add: initial_state_def)
  then have "crawl_musinsa session_A (- 1) =
     Inr \<lparr>returned = [], output_file = Some [], driver_quit = True, caught = None,
          ended = Some reached_target, locals = initial_state\<rparr>"
    by (simp add: crawl_musinsa_def session_A_def) (simp add: initial_state_def)
  moreover have "crawl_musinsa session_timeout 0 =
     Inr \<lparr>returned = [], output_file = None, driver_quit = True,
          caught = Some TimeoutException, ended = None, locals = initial_state\<rparr>"
    by (simp add: crawl_musinsa_def session_timeout_def)
  ultimately show ?thesis by simp
qed

text \<open>
  C3, amended. For a target that is not negative, the returned list is never longer
  than the target. When the target is positive or the page loaded, the list has
  exactly the target length if and only if the loop ended with \<open>reached_target\<close>; a
  loop that ended \<open>exhausted\<close> returns fewer items than the target. The function
  returns the list alone: whenever the loop ended, its outcome is the one the caller
  computes by comparing the length of the list with the target.
\<close>

theorem target_bound:
  assumes "0 \<le> m" and "crawl_musinsa env m = Inr r"
  shows "int (length (returned r)) \<le> m \<and>
         (0 < m \<or> page_load env = None \<longrightarrow>
            (int (length (returned r)) = m \<longleftrightarrow> ended r = Some reached_target)) \<and>
         (ended r = Some exhausted \<longrightarrow> int (length (returned r)) < m) \<and>
         (\<forall>how. ended r = Some how \<longrightarrow>
            how = (if int (length (returned r)) = m then reached_target else exhausted))"
proof (cases "page_load env")
  case (Some e)
  from crawl_musinsa_page_fault [OF assms(2) Some] assms(1) Some
  show ?thesis by auto
next
  case None
  obtain st x where run: "run_loop env m initial_state = (st, x)"
    by (cases "run_loop env m initial_state")
  note ends = run_loop_ends [OF bounded_initial [OF assms(1)] run]
  note len = length_returned [OF assms(2)]
  show ?thesis
  proof (cases x)
    case (Inl e)
    from crawl_musinsa_loop_fault [OF assms(2) None run [unfolded Inl]]
    have r: "locals r = st" "ended r = None" by simp_all
    from ends Inl have "int (collected_count st) < m" by simp
    with r len show ?thesis by simp
  next
    case (Inr how)
    from crawl_musinsa_loop_ended [OF assms(2) None run [unfolded Inr]]
    have r: "locals r = st" "ended r = Some how" by simp_all
    show ?thesis
    proof (cases how)
      case reached_target
      with ends Inr have "int (collected_count st) = m" by simp
      with r len reached_target show ?thesis by simp
    next
      case exhausted
      with ends Inr have "int (collected_count st) < m" by simp
      with r len exhausted show ?thesis by simp
    qed
  qed
qed

theorem target_bound_witness:
  "(0::int) \<le> 3 \<and> (\<exists>r. crawl_musinsa session_A 3 = Inr r \<and>
     int (length (returned r)) \<le> 3 \<and>
     (int (length (returned r)) = 3 \<longleftrightarrow> ended r = Some reached_target) \<and>
     (ended r = Some exhausted \<longrightarrow> int (length (returned r)) < 3))"
proof -
  obtain r where r: "crawl_musinsa session_A 3 = Inr r"
    using crawl_musinsa_returns [of session_A 3] by (auto simp: session_A_def)
  from target_bound [of 3 session_A r] r show ?thesis by simp
qed

section \<open>Exceptions of the session\<close>










section \<open>Scans without a new item\<close>

lemma barren_scan:
  "\<forall>it \<in> set its. \<not> fresh (collected_urls st) it \<Longrightarrow> scan_items m st its = st"
  by (induction its) (simp_all add: item_step_not_fresh)

lemma fresh_item_step:
  assumes "fresh (collected_urls st) it"
  shows "new_items_found (item_step st it) = new_items_found st + 1"
proof -
  from assms obtain url pd where "loop_link_element it = Inr url"
    and "url \<notin> collected_urls st" and "storable it = Some pd"
    by (auto simp: fresh_def split: sum.splits)
  then show ?thesis
    using item_step_store [of it url st pd] by (simp add: storable_Some)
qed

lemma scan_items_no_new:
  assumes "new_items_found (scan_items m st its) = new_items_found st"
    and "int (collected_count st) < m"
  shows "\<forall>it \<in> set its. \<not> fresh (collected_urls st) it"
  using assms
proof (induction its)
  case Nil
  show ?case by simp
next
  case (Cons it its)
  from Cons.prems have eq: "new_items_found (scan_items m (item_step st it) its) =
      new_items_found st" by simp
  have "new_items_found st \<le> new_items_found (item_step st it)"
    by (rule new_items_found_item_step)
  moreover have "new_items_found (item_step st it) \<le>
      new_items_found (scan_items m (item_step st it) its)"
    by (rule new_items_found_scan_items)
  ultimately have same: "new_items_found (item_step st it) = new_items_found st"
    using eq by simp
  then have nf: "\<not> fresh (collected_urls st) it"
    using fresh_item_step [of st it] by auto
  then have "item_step st it = st" by (rule item_step_not_fresh)
  with Cons.IH eq Cons.prems(2) have "\<forall>it \<in> set its. \<not> fresh (collected_urls st) it"
    by simp
  with nf show ?case by simp
qed

lemma empty_scan_iff:
  assumes "int (collected_count st) < m"
  shows "new_items_found
           (scan_items m (st\<lparr>new_items_found := 0, scan_count := k\<rparr>) its) = 0 \<longleftrightarrow>
         (\<forall>it \<in> set its. \<not> fresh (collected_urls st) it)"
proof
  assume "new_items_found
           (scan_items m (st\<lparr>new_items_found := 0, scan_count := k\<rparr>) its) = 0"
  with scan_items_no_new [of m "st\<lparr>new_items_found := 0, scan_count := k\<rparr>" its] assms
  show "\<forall>it \<in> set its. \<not> fresh (collected_urls st) it" by simp
next
  assume "\<forall>it \<in> set its. \<not> fresh (collected_urls st) it"
  with barren_scan [of its "st\<lparr>new_items_found := 0, scan_count := k\<rparr>" m]
  show "new_items_found
           (scan_items m (st\<lparr>new_items_found := 0, scan_count := k\<rparr>) its) = 0"
    by simp
qed

lemma stall_run:
  assumes "int (collected_count st) < m" and "no_new_items_count st + n = 10" and "0 < n"
    and "\<forall>j<n. \<exists>its. find_elements env (scan_count st + j) = Inr its \<and>
           (\<forall>it \<in> set its. \<not> fresh (collected_urls st) it)"
    and "\<forall>j. j + 1 < n \<longrightarrow> execute_script env (scroll_count st + j) = None"
  shows "run_loop env m st =
           (\<lparr>products = products st, collected_urls = collected_urls st,
             collected_count = collected_count st,
             scroll_count = scroll_count st + (n - 1), no_new_items_count = 10,
             new_items_found = 0, scan_count = scan_count st + n\<rparr>, Inr exhausted)"
  using assms
proof (induction n arbitrary: st)
  case 0
  then show ?case by simp
next
  case (Suc n)
  from Suc.prems(4) have "\<exists>its. find_elements env (scan_count st + 0) = Inr its \<and>
           (\<forall>it \<in> set its. \<not> fresh (collected_urls st) it)" by blast
  then obtain its where its: "find_elements env (scan_count st) = Inr its"
    and barren: "\<forall>it \<in> set its. \<not> fresh (collected_urls st) it" by auto
  let ?s0 = "st\<lparr>new_items_found := 0, scan_count := scan_count st + 1\<rparr>"
  have scan: "scan_items m ?s0 its = ?s0" by (rule barren_scan) (simp add: barren)
  show ?case
  proof (cases n)
    case 0
    with Suc.prems(2) have nine: "no_new_items_count st = 9" by simp
    have "cycle env m st = (?s0\<lparr>no_new_items_count := 10\<rparr>, Some (Inr exhausted))"
      using Suc.prems(1) its scan nine by (simp add: cycle_def Let_def)
    then have "run_loop env m st = (?s0\<lparr>no_new_items_count := 10\<rparr>, Inr exhausted)"
      by (subst run_loop_cycle) simp
    with 0 show ?thesis by simp
  next
    case (Suc n')
    let ?s1 = "?s0\<lparr>no_new_items_count := no_new_items_count st + 1,
                   scroll_count := scroll_count st + 1\<rparr>"
    from Suc.prems(5) have "0 + 1 < Suc n \<longrightarrow>
        execute_script env (scroll_count st + 0) = None" by blast
    with Suc have scr: "execute_script env (scroll_count st) = None" by simp
    from Suc.prems(2) Suc have lt: "\<not> 10 \<le> no_new_items_count st + 1" by simp
    have "cycle env m st = (?s1, None)"
      using Suc.prems(1) its scan scr lt by (simp add: cycle_def Let_def)
    then have run: "run_loop env m st = run_loop env m ?s1"
      by (subst run_loop_cycle) simp
    have 1: "int (collected_count ?s1) < m" using Suc.prems(1) by simp
    have 2: "no_new_items_count ?s1 + n = 10" using Suc.prems(2) by simp
    have 3: "0 < n" using Suc by simp
    have 4: "\<forall>j<n. \<exists>its. find_elements env (scan_count ?s1 + j) = Inr its \<and>
           (\<forall>it \<in> set its. \<not> fresh (collected_urls ?s1) it)"
    proof (intro allI impI)
      fix j
      assume "j < n"
      then have "Suc j < Suc n" by simp
      with Suc.prems(4) have "\<exists>its. find_elements env (scan_count st + Suc j) = Inr its \<and>
           (\<forall>it \<in> set its. \<not> fresh (collected_urls st) it)" by blast
      then show "\<exists>its. find_elements env (scan_count ?s1 + j) = Inr its \<and>
           (\<forall>it \<in> set its. \<not> fresh (collected_urls ?s1) it)" by simp
    qed
    have 5: "\<forall>j. j + 1 < n \<longrightarrow> execute_script env (scroll_count ?s1 + j) = None"
    proof (intro allI impI)
      fix j
      assume "j + 1 < n"
      then have "Suc j + 1 < Suc n" by simp
      with Suc.prems(5) have "execute_script env (scroll_count st + Suc j) = None" by blast
      then show "execute_script env (scroll_count ?s1 + j) = None" by simp
    qed
    from Suc.IH [OF 1 2 3 4 5] run Suc show ?thesis by simp
  qed
qed

lemma run_loop_productive:
  assumes "int (collected_count st) < m" and "find_elements env (scan_count st) = Inr its"
    and "0 < new_items_found
               (scan_items m (st\<lparr>new_items_found := 0, scan_count := scan_count st + 1\<rparr>) its)"
  shows "run_loop env m st =
           (if m \<le> int (collected_count
                 (scan_items m (st\<lparr>new_items_found := 0, scan_count := scan_count st + 1\<rparr>) its))
            then ((scan_items m (st\<lparr>new_items_found := 0, scan_count := scan_count st + 1\<rparr>) its)
                    \<lparr>no_new_items_count := 0\<rparr>, Inr reached_target)
            else run_loop env m
                   ((scan_items m
                       (st\<lparr>new_items_found := 0, scan_count := scan_count st + 1\<rparr>) its)
                    \<lparr>no_new_items_count := 0\<rparr>))"
  using assms by (subst run_loop.simps) (simp add: Let_def)

text \<open>
  C4. Take the loop at a state below the target whose stall counter needs \<open>n\<close> more
  empty scans to reach 10. If the next \<open>n\<close> scans succeed and hold no fresh handle,
  and the \<open>n - 1\<close> scrolls between them succeed, the loop ends \<open>exhausted\<close> with
  exactly \<open>n\<close> more scans and \<open>n - 1\<close> more scrolls made (no scroll and no scan after
  the last empty scan), the stall counter at 10 and the collection as it was. A scan
  holds no fresh handle exactly when the loop counts no new item in it. A scan in which
  the loop counts a new item resets the stall counter to 0: the loop ends there if the
  target is reached, and otherwise goes on from the counter 0, without a scroll.
\<close>

theorem stall_termination:
  "(int (collected_count st) < m \<and> no_new_items_count st + n = 10 \<and> 0 < n \<and>
    (\<forall>j<n. \<exists>its. find_elements env (scan_count st + j) = Inr its \<and>
        (\<forall>it \<in> set its. \<not> fresh (collected_urls st) it)) \<and>
    (\<forall>j. j + 1 < n \<longrightarrow> execute_script env (scroll_count st + j) = None) \<longrightarrow>
      run_loop env m st =
        (\<lparr>products = products st, collected_urls = collected_urls st,
          collected_count = collected_count st,
          scroll_count = scroll_count st + (n - 1), no_new_items_count = 10,
          new_items_found = 0, scan_count = scan_count st + n\<rparr>, Inr exhausted)) \<and>
   (int (collected_count st) < m \<longrightarrow>
      (new_items_found
         (scan_items m (st\<lparr>new_items_found := 0, scan_count := k\<rparr>) its) = 0 \<longleftrightarrow>
       (\<forall>it \<in> set its. \<not> fresh (collected_urls st) it))) \<and>
   (int (collected_count st) < m \<and> find_elements env (scan_count st) = Inr its \<and>
    0 < new_items_found
          (scan_items m (st\<lparr>new_items_found := 0, scan_count := scan_count st + 1\<rparr>) its) \<longrightarrow>
      run_loop env m st =
        (if m \<le> int (collected_count
              (scan_items m (st\<lparr>new_items_found := 0, scan_count := scan_count st + 1\<rparr>) its))
         then ((scan_items m (st\<lparr>new_items_found := 0, scan_count := scan_count st + 1\<rparr>) its)
                 \<lparr>no_new_items_count := 0\<rparr>, Inr reached_target)
         else run_loop env m
                ((scan_items m
                    (st\<lparr>new_items_found := 0, scan_count := scan_count st + 1\<rparr>) its)
                 \<lparr>no_new_items_count := 0\<rparr>)))"
proof (intro conjI impI)
  assume "int (collected_count st) < m \<and> no_new_items_count st + n = 10 \<and> 0 < n \<and>
    (\<forall>j<n. \<exists>its. find_elements env (scan_count st + j) = Inr its \<and>
        (\<forall>it \<in> set its. \<not> fresh (collected_urls st) it)) \<and>
    (\<forall>j. j + 1 < n \<longrightarrow> execute_script env (scroll_count st + j) = None)"
  then show "run_loop env m st =
        (\<lparr>products = products st, collected_urls = collected_urls st,
          collected_count = collected_count st,
          scroll_count = scroll_count st + (n - 1), no_new_items_count = 10,
          new_items_found = 0, scan_count = scan_count st + n\<rparr>, Inr exhausted)"
    by (intro stall_run) simp_all
next
  assume "int (collected_count st) < m"
  then show "new_items_found
         (scan_items m (st\<lparr>new_items_found := 0, scan_count := k\<rparr>) its) = 0 \<longleftrightarrow>
       (\<forall>it \<in> set its. \<not> fresh (collected_urls st) it)"
    by (rule empty_scan_iff)
next
  assume "int (collected_count st) < m \<and> find_elements env (scan_count st) = Inr its \<and>
    0 < new_items_found
          (scan_items m (st\<lparr>new_items_found := 0, scan_count := scan_count st + 1\<rparr>) its)"
  then show "run_loop env m st =
        (if m \<le> int (collected_count
              (scan_items m (st\<lparr>new_items_found := 0, scan_count := scan_count st + 1\<rparr>) its))
         then ((scan_items m (st\<lparr>new_items_found := 0, scan_count := scan_count st + 1\<rparr>) its)
                 \<lparr>no_new_items_count := 0\<rparr>, Inr reached_target)
         else run_loop env m
                ((scan_items m
                    (st\<lparr>new_items_found := 0, scan_count := scan_count st + 1\<rparr>) its)
                 \<lparr>no_new_items_count := 0\<rparr>))"
    by (intro run_loop_productive) simp_all
qed

lemma scan_session_A:
  "scan_items 3 (initial_state\<lparr>new_items_found := 0, scan_count := scan_count initial_state + 1\<rparr>)
     [item_A, item_D, item_A, item_B] =
   \<lparr>products = [data_A, data_B],
    collected_urls = {Some ''https://www.musinsa.com/products/2'',
                      Some ''https://www.musinsa.com/products/1''},
    collected_count = 2, scroll_count = 0, no_new_items_count = 0,
    new_items_found = 2, scan_count = 1\<rparr>"
  by code_simp

theorem stall_termination_witness:
  "find_elements session_A 0 = Inr [item_A, item_D, item_A, item_B] \<and>
   run_loop session_A 3 initial_state =
     run_loop session_A 3
       \<lparr>products = [data_A, data_B],
        collected_urls = {Some ''https://www.musinsa.com/products/2'',
                          Some ''https://www.musinsa.com/products/1''},
        collected_count = 2, scroll_count = 0, no_new_items_count = 0,
        new_items_found = 2, scan_count = 1\<rparr> \<and>
   run_loop session_A 3
     \<lparr>products = [data_A, data_B],
      collected_urls = {Some ''https://www.musinsa.com/products/2'',
                        Some ''https://www.musinsa.com/products/1''},
      collected_count = 2, scroll_count = 0, no_new_items_count = 0,
      new_items_found = 2, scan_count = 1\<rparr> =
   (\<lparr>products = [data_A, data_B],
      collected_urls = {Some ''https://www.musinsa.com/products/2'',
                        Some ''https://www.musinsa.com/products/1''},
      collected_count = 2, scroll_count = 9, no_new_items_count = 10,
      new_items_found = 0, scan_count = 11\<rparr>, Inr exhausted)"
proof -
  let ?s = "\<lparr>products = [data_A, data_B],
      collected_urls = {Some ''https://www.musinsa.com/products/2'',
                        Some ''https://www.musinsa.com/products/1''},
      collected_count = 2, scroll_count = 0, no_new_items_count = 0,
      new_items_found = 2, scan_count = 1\<rparr>"
  have c0: "collected_count initial_state = 0" and k0: "scan_count initial_state = 0"
    by (simp_all add: initial_state_def)
  have f: "\<And>k. find_elements session_A k = Inr [item_A, item_D, item_A, item_B]"
    by (simp add: session_A_def)
  have x: "\<And>k. execute_script session_A k = None" by (simp add: session_A_def)
  have b: "\<forall>it \<in> set [item_A, item_D, item_A, item_B]. \<not> fresh (collected_urls ?s) it"
    by (simp add: fresh_def item_A_def item_B_def item_D_def)
  have h: "int (collected_count ?s) < 3 \<and> no_new_items_count ?s + 10 = 10 \<and> (0::nat) < 10 \<and>
    (\<forall>j<10. \<exists>its. find_elements session_A (scan_count ?s + j) = Inr its \<and>
        (\<forall>it \<in> set its. \<not> fresh (collected_urls ?s) it)) \<and>
    (\<forall>j. j + 1 < 10 \<longrightarrow> execute_script session_A (scroll_count ?s + j) = None)"
    using b by (simp add: f x)
  from stall_termination [where st = ?s and m = 3 and n = 10 and env = session_A] h
  have 1: "run_loop session_A 3 ?s =
     (\<lparr>products = [data_A, data_B],
      collected_urls = {Some ''https://www.musinsa.com/products/2'',
                        Some ''https://www.musinsa.com/products/1''},
      collected_count = 2, scroll_count = 9, no_new_items_count = 10,
      new_items_found = 0, scan_count = 11\<rparr>, Inr exhausted)"
    by simp
  note t = stall_termination [where st = initial_state and m = 3 and env = session_A
      and its = "[item_A, item_D, item_A, item_B]", unfolded scan_session_A]
  from t have 2: "run_loop session_A 3 initial_state = run_loop session_A 3 ?s"
    by (simp add: c0 k0 f)
  from f [of 0] 1 2 show ?thesis by simp
qed

section \<open>The order of the output\<close>

lemma observed_Nil: "observed [] = []"
  by (simp add: observed_def List.map_filter_simps)

lemma observed_Cons:
  "observed (it # its) =
     (case storable it of None \<Rightarrow> observed its | Some pd \<Rightarrow> pd # observed its)"
  by (cases "storable it") (simp_all add: observed_def List.map_filter_simps)

lemma observed_append: "observed (xs @ ys) = observed xs @ observed ys"
  by (induction xs) (simp_all add: observed_Nil observed_Cons split: option.splits)

lemma first_seen_append:
  "first_seen seen (xs @ ys) =
     first_seen seen xs @ first_seen (seen \<union> product_url ` set xs) ys"
proof (induction xs arbitrary: seen)
  case Nil
  show ?case by simp
next
  case (Cons x xs)
  show ?case
  proof (cases "product_url x \<in> seen")
    case True
    then have "seen \<union> product_url ` set (x # xs) = seen \<union> product_url ` set xs" by auto
    with True Cons.IH [of seen] show ?thesis by simp
  next
    case False
    have "insert (product_url x) seen \<union> product_url ` set xs =
          seen \<union> product_url ` set (x # xs)" by auto
    with False Cons.IH [of "insert (product_url x) seen"] show ?thesis by simp
  qed
qed

lemma keys_first_seen:
  "seen \<union> product_url ` set (first_seen seen xs) = seen \<union> product_url ` set xs"
proof (induction xs arbitrary: seen)
  case Nil
  show ?case by simp
next
  case (Cons x xs)
  show ?case
  proof (cases "product_url x \<in> seen")
    case True
    with Cons.IH [of seen] show ?thesis by auto
  next
    case False
    with Cons.IH [of "insert (product_url x) seen"] show ?thesis by auto
  qed
qed

lemma scanned_Suc:
  "scanned env (Suc k) =
     scanned env k @ (case find_elements env k of Inl e \<Rightarrow> [] | Inr its \<Rightarrow> its)"
  by (simp add: scanned_def)

lemma scan_items_products:
  assumes "\<forall>it \<in> set its. same_href it"
    and "collected_count st = length (products st)"
    and "length (products st) \<le> nat m"
  shows "products (scan_items m st its) =
           take (nat m) (products st @ first_seen (collected_urls st) (observed its))"
  using assms
proof (induction its arbitrary: st)
  case Nil
  then show ?case by (simp add: observed_Nil)
next
  case (Cons it its)
  from Cons.prems(1) have sh: "same_href it" and shs: "\<forall>it \<in> set its. same_href it"
    by simp_all
  show ?case
  proof (cases "int (collected_count st) \<ge> m")
    case True
    with Cons.prems(2,3) have "length (products st) = nat m" by simp
    with True show ?thesis by simp
  next
    case False
    show ?thesis
    proof (cases "fresh (collected_urls st) it")
      case nf: False
      have step: "item_step st it = st" by (rule item_step_not_fresh [OF nf])
      have "first_seen (collected_urls st) (observed (it # its)) =
            first_seen (collected_urls st) (observed its)"
      proof (cases "storable it")
        case None
        then show ?thesis by (simp add: observed_Cons)
      next
        case (Some pd)
        then obtain url where l: "loop_link_element it = Inr url"
          and x: "extract_product_info it = Inr pd" and t: "truthy (product_url pd)"
          by (auto simp: storable_Some)
        from nf l Some have "url \<in> collected_urls st" by (simp add: fresh_def)
        moreover have "product_url pd = url" by (rule same_href_key [OF sh l x t])
        ultimately show ?thesis using Some by (simp add: observed_Cons)
      qed
      moreover have "products (scan_items m st its) =
          take (nat m) (products st @ first_seen (collected_urls st) (observed its))"
        by (rule Cons.IH [OF shs Cons.prems(2) Cons.prems(3)])
      ultimately show ?thesis using False step by simp
    next
      case fr: True
      then obtain url pd where l: "loop_link_element it = Inr url"
        and n: "url \<notin> collected_urls st" and s: "storable it = Some pd"
        by (auto simp: fresh_def split: sum.splits)
      from s have x: "extract_product_info it = Inr pd" and t: "truthy (product_url pd)"
        by (simp_all add: storable_Some)
      have k: "product_url pd = url" by (rule same_href_key [OF sh l x t])
      let ?st' = "st\<lparr>products := products st @ [pd],
              collected_urls := insert url (collected_urls st),
              collected_count := collected_count st + 1,
              new_items_found := new_items_found st + 1\<rparr>"
      have step: "item_step st it = ?st'" by (rule item_step_store [OF l n x t])
      have c': "collected_count ?st' = length (products ?st')"
        using Cons.prems(2) by simp
      have b': "length (products ?st') \<le> nat m"
        using Cons.prems(2) False by simp
      have "products (scan_items m ?st' its) =
          take (nat m) (products ?st' @ first_seen (collected_urls ?st') (observed its))"
        by (rule Cons.IH [OF shs c' b'])
      then show ?thesis using False step s k n by (simp add: observed_Cons)
    qed
  qed
qed

lemma take_short: "length (take n xs) < n \<Longrightarrow> take n xs = xs"
  by simp

lemma in_order_frame:
  assumes "products s' = products s" and "collected_urls s' = collected_urls s"
    and "collected_count s' = collected_count s" and "scan_count s' = scan_count s"
    and "in_order env m s"
  shows "in_order env m s'"
proof -
  from assms(5) have c: "consistent s"
    and p: "products s = take (nat m) (first_seen {} (observed (scanned env (scan_count s))))"
    by (simp_all add: in_order_def)
  from c have "consistent s'" unfolding consistent_def assms(1-3) .
  moreover from p have
    "products s' = take (nat m) (first_seen {} (observed (scanned env (scan_count s'))))"
    unfolding assms(1,4) .
  ultimately show ?thesis by (simp add: in_order_def)
qed

lemma in_order_cycle:
  assumes h: "\<forall>k its. find_elements env k = Inr its \<longrightarrow> (\<forall>it \<in> set its. same_href it)"
    and io: "in_order env m s" and cyc: "cycle env m s = (s', x)"
  shows "in_order env m s'"
proof (cases "int (collected_count s) < m")
  case False
  with cyc io show ?thesis by (simp add: cycle_def)
next
  case lt: True
  from io have con: "consistent s"
    and pr: "products s = take (nat m) (first_seen {} (observed (scanned env (scan_count s))))"
    by (simp_all add: in_order_def)
  show ?thesis
  proof (cases "find_elements env (scan_count s)")
    case (Inl e)
    with lt cyc have s': "s' = s\<lparr>scan_count := scan_count s + 1\<rparr>"
      by (auto simp: cycle_def)
    show ?thesis
      using con pr Inl by (simp add: s' in_order_def consistent_def scanned_Suc)
  next
    case (Inr its)
    let ?s0 = "s\<lparr>new_items_found := 0, scan_count := scan_count s + 1\<rparr>"
    let ?s1 = "scan_items m ?s0 its"
    let ?F = "first_seen {} (observed (scanned env (scan_count s)))"
    from h Inr have sh: "\<forall>it \<in> set its. same_href it" by blast
    from con have len: "collected_count s = length (products s)"
      and keys: "collected_urls s = product_url ` set (products s)"
      by (simp_all add: consistent_def)
    from lt len have short: "length (products s) < nat m" by simp
    with pr have full: "products s = ?F" using take_short [of "nat m" ?F] by simp
    have keys': "collected_urls s = product_url ` set (observed (scanned env (scan_count s)))"
      using keys_first_seen [of "{}" "observed (scanned env (scan_count s))"] keys full
      by simp
    have con0: "consistent ?s0" using con by (simp add: consistent_def)
    have con1: "consistent ?s1"
      by (rule scan_items_preserves [where Q = consistent, OF con0])
         (use sh in \<open>auto intro: consistent_item_step\<close>)
    have "products ?s1 =
        take (nat m) (products ?s0 @ first_seen (collected_urls ?s0) (observed its))"
      by (rule scan_items_products [OF sh]) (use len short in simp_all)
    also have "products ?s0 @ first_seen (collected_urls ?s0) (observed its) =
        first_seen {} (observed (scanned env (scan_count s)) @ observed its)"
      using full keys' by (simp add: first_seen_append)
    also have "observed (scanned env (scan_count s)) @ observed its =
        observed (scanned env (scan_count ?s1))"
      using Inr by (simp add: scan_items_frame scanned_Suc observed_append)
    finally have io1: "in_order env m ?s1" using con1 by (simp add: in_order_def)
    have e: "products s' = products ?s1" "collected_urls s' = collected_urls ?s1"
      "collected_count s' = collected_count ?s1" "scan_count s' = scan_count ?s1"
      using cyc lt Inr
      by (auto simp: cycle_def Let_def split: if_splits option.splits)
    from e io1 show ?thesis by (rule in_order_frame)
  qed
qed

lemma in_order_run_loop:
  assumes h: "\<forall>k its. find_elements env k = Inr its \<longrightarrow> (\<forall>it \<in> set its. same_href it)"
    and io: "in_order env m st"
  shows "in_order env m (fst (run_loop env m st))"
  by (rule run_loop_rule [where P = "in_order env m" and Q = "\<lambda>s r. in_order env m s", OF io])
     (erule (1) in_order_cycle [OF h])+

lemma in_order_initial: "in_order env m initial_state"
  by (simp add: in_order_def consistent_initial)
     (simp add: initial_state_def scanned_def observed_Nil)

lemma products_item_step: "\<exists>ys. products (item_step st it) = products st @ ys"
  using item_step_cases [of st it] by auto

lemma products_scan_items: "\<exists>ys. products (scan_items m st its) = products st @ ys"
proof (rule scan_items_preserves [where Q = "\<lambda>s. \<exists>ys. products s = products st @ ys"])
  show "\<exists>ys. products st = products st @ ys" by simp
next
  fix s :: state and it
  assume "\<exists>ys. products s = products st @ ys"
  then obtain ys where "products s = products st @ ys" ..
  moreover obtain zs where "products (item_step s it) = products s @ zs"
    using products_item_step [of s it] ..
  ultimately show "\<exists>ys. products (item_step s it) = products st @ ys" by simp
qed

lemma products_run_loop: "\<exists>ys. products (fst (run_loop env m st)) = products st @ ys"
proof (rule run_loop_preserves [where Q = "\<lambda>s. \<exists>ys. products s = products st @ ys"])
  show "\<exists>ys. products st = products st @ ys" by simp
next
  fix s :: state and it
  assume "\<exists>ys. products s = products st @ ys"
  then obtain ys where "products s = products st @ ys" ..
  moreover obtain zs where "products (item_step s it) = products s @ zs"
    using products_item_step [of s it] ..
  ultimately show "\<exists>ys. products (item_step s it) = products st @ ys" by simp
next
  fix s s' :: state
  assume "core s = core s'" and "\<exists>ys. products s = products st @ ys"
  then show "\<exists>ys. products s' = products st @ ys" by (simp add: core_def)
qed

lemma crawl_session_stale:
  "crawl_musinsa session_stale 2 =
     Inr \<lparr>returned = [data_B, data_C], output_file = Some [data_B, data_C],
          driver_quit = True, caught = None, ended = Some reached_target,
          locals = \<lparr>products = [data_B, data_C],
            collected_urls = {Some ''https://www.musinsa.com/products/3'',
                              Some ''https://www.musinsa.com/products/2''},
            collected_count = 2, scroll_count = 0, no_new_items_count = 0,
            new_items_found = 1, scan_count = 2\<rparr>\<rparr>"
  by code_simp

text \<open>
  C2 as stated fails. At the first scan of \<open>session_stale\<close> the loop reads the key of
  product 3 before the key of product 2, but the extraction of product 3 raises and the
  handle is skipped; product 3 is stored from its handle of the second scan, after
  product 2. And when the two reads of a link differ (\<open>session_E\<close>), the same key
  is stored twice.
\<close>

theorem first_sight_counterexample:
  "find_elements session_stale 0 = Inr [item_C, item_B] \<and>
   loop_link_element item_C = Inr (product_url data_C) \<and>
   loop_link_element item_B = Inr (product_url data_B) \<and>
   returned (projr (crawl_musinsa session_stale 2)) = [data_B, data_C] \<and>
   returned (projr (crawl_musinsa session_E 2)) = [data_A, data_A]"
  by (simp add: crawl_session_stale crawl_session_E)
     (simp add: session_stale_def item_C_def item_B_def data_C_def data_B_def)

text \<open>
  C2, amended. In a run on all of whose handles the two reads of the link agree, the
  returned list is, up to the target, the list of the records of the storable handles
  (a record was extracted, with a truthy key) of all the scans made, in scan order and
  in page order within a scan, each key kept at its first such handle only. A handle
  whose extraction raised is no sighting of its key. Every per-item step, every scan
  and the whole loop only append to the list of stored records: nothing stored is
  reordered or removed.
\<close>

theorem output_order:
  "((\<forall>k its. find_elements env k = Inr its \<longrightarrow> (\<forall>it \<in> set its. same_href it)) \<and>
    crawl_musinsa env m = Inr r \<longrightarrow>
      returned r =
        take (nat m) (first_seen {} (observed (scanned env (scan_count (locals r)))))) \<and>
   (\<exists>ys. products (item_step st it) = products st @ ys) \<and>
   (\<exists>ys. products (scan_items m st its) = products st @ ys) \<and>
   (\<exists>ys. products (fst (run_loop env m st)) = products st @ ys)"
proof (intro conjI impI)
  assume a: "(\<forall>k its. find_elements env k = Inr its \<longrightarrow> (\<forall>it \<in> set its. same_href it)) \<and>
    crawl_musinsa env m = Inr r"
  then have h: "\<forall>k its. find_elements env k = Inr its \<longrightarrow> (\<forall>it \<in> set its. same_href it)"
    and r: "crawl_musinsa env m = Inr r" by simp_all
  have "in_order env m (locals r)"
  proof (cases "page_load env")
    case None
    with crawl_musinsa_Inr(5) [OF r] have "locals r = fst (run_loop env m initial_state)"
      by simp
    with in_order_run_loop [OF h in_order_initial] show ?thesis by simp
  next
    case (Some e)
    with crawl_musinsa_Inr(4) [OF r] in_order_initial show ?thesis by simp
  qed
  with crawl_musinsa_Inr(2) [OF r]
  show "returned r =
        take (nat m) (first_seen {} (observed (scanned env (scan_count (locals r)))))"
    by (simp add: in_order_def)
next
  show "\<exists>ys. products (item_step st it) = products st @ ys" by (rule products_item_step)
  show "\<exists>ys. products (scan_items m st its) = products st @ ys" by (rule products_scan_items)
  show "\<exists>ys. products (fst (run_loop env m st)) = products st @ ys"
    by (rule products_run_loop)
qed

lemma same_href_session_stale:
  "\<forall>k its. find_elements session_stale k = Inr its \<longrightarrow> (\<forall>it \<in> set its. same_href it)"
  by (auto simp: session_stale_def same_href_def item_C_later_def item_C_def item_B_def
      split: if_splits)

lemma observed_session_stale:
  "observed (scanned session_stale 2) = [data_B, data_C, data_B]"
  by code_simp

theorem output_order_witness:
  "list_all same_href [item_C, item_B, item_C_later, item_B] \<and>
   scanned session_stale 2 = [item_C, item_B, item_C_later, item_B] \<and>
   observed (scanned session_stale 2) = [data_B, data_C, data_B] \<and>
   (\<exists>r. crawl_musinsa session_stale 2 = Inr r \<and> scan_count (locals r) = 2 \<and>
      returned r = take 2 (first_seen {} (observed (scanned session_stale 2))) \<and>
      returned r = [data_B, data_C])"
proof -
  have a: "list_all same_href [item_C, item_B, item_C_later, item_B]"
    by (simp add: same_href_def item_C_later_def item_C_def item_B_def)
  have b: "scanned session_stale 2 = [item_C, item_B, item_C_later, item_B]"
    by (simp add: scanned_def session_stale_def numeral_2_eq_2)
  obtain r where r: "crawl_musinsa session_stale 2 = Inr r"
    and k: "scan_count (locals r) = 2" and v: "returned r = [data_B, data_C]"
    by (simp add: crawl_session_stale)
  from output_order [where env = session_stale and m = 2 and r = r]
    same_href_session_stale r k
  have "returned r = take 2 (first_seen {} (observed (scanned session_stale 2)))"
    by simp
  with a b r k v observed_session_stale show ?thesis by blast
qed

end
